theory Spec2Isabelle
  imports Main "HOL-Library.Word" "HOL-Library.AList"
begin

unbundle bit_operations_syntax

section \<open>The OPFS SyncAccessHandle pool VFS (sqlite3-vfs-opfs-sahpool.js)\<close>

text \<open>
  A shallow embedding of class \<open>OpfsSAHPool\<close>, of the parts of \<open>SAHPoolUtil\<close> and of the
  \<open>sqlite3_vfs\<close> / \<open>sqlite3_io_methods\<close> implementations that work on the pool.

  \<^item> Bytes are \<open>8 word\<close>, the open flags and the digest words \<open>32 word\<close>.
  \<^item> A JavaScript string is represented by its UTF-8 encoding (a byte list): the code
    only ever looks at a path through \<open>TextEncoder.encodeInto\<close>, through its truthiness
    (non-empty) and as a \<open>Map\<close> key. \<open>TextDecoder.decode\<close> is the identity on such
    encodings.
  \<^item> A JavaScript \<open>Map\<close> is an association list in insertion order (\<open>AList.update\<close>
    replaces in place or appends, as \<open>Map.set\<close> does), a \<open>Set\<close> a duplicate-free list in
    insertion order.
  \<^item> OPFS is an explicit store: the files of the pool's directory with their contents,
    and the table of the SyncAccessHandles that are open, each on one file.
  \<^item> An exception is a value \<open>Inl e\<close>; every function returns the state it leaves
    behind together with its result, since a \<open>toss\<close> does not undo earlier writes.
\<close>

subsection \<open>Configuration constants\<close>

type_synonym byte = "8 word"
type_synonym u32 = "32 word"
type_synonym jsstring = "byte list"
type_synonym fname = string
type_synonym sah = nat

abbreviation SECTOR_SIZE :: nat where "SECTOR_SIZE \<equiv> 4096"
abbreviation HEADER_MAX_PATH_SIZE :: nat where "HEADER_MAX_PATH_SIZE \<equiv> 512"
abbreviation HEADER_FLAGS_SIZE :: nat where "HEADER_FLAGS_SIZE \<equiv> 4"
abbreviation HEADER_DIGEST_SIZE :: nat where "HEADER_DIGEST_SIZE \<equiv> 8"
abbreviation HEADER_CORPUS_SIZE :: nat where "HEADER_CORPUS_SIZE \<equiv> 516"
abbreviation HEADER_OFFSET_FLAGS :: nat where "HEADER_OFFSET_FLAGS \<equiv> 512"
abbreviation HEADER_OFFSET_DIGEST :: nat where "HEADER_OFFSET_DIGEST \<equiv> 516"
abbreviation HEADER_OFFSET_DATA :: nat where "HEADER_OFFSET_DATA \<equiv> 4096"

text \<open>The \<open>capi\<close> constants the file uses, with their values in \<open>sqlite3.h\<close>.\<close>

abbreviation SQLITE_OPEN_CREATE :: u32 where "SQLITE_OPEN_CREATE \<equiv> 0x4"
abbreviation SQLITE_OPEN_DELETEONCLOSE :: u32 where "SQLITE_OPEN_DELETEONCLOSE \<equiv> 0x8"
abbreviation SQLITE_OPEN_MAIN_DB :: u32 where "SQLITE_OPEN_MAIN_DB \<equiv> 0x100"
abbreviation SQLITE_OPEN_MAIN_JOURNAL :: u32 where "SQLITE_OPEN_MAIN_JOURNAL \<equiv> 0x800"
abbreviation SQLITE_OPEN_SUPER_JOURNAL :: u32 where "SQLITE_OPEN_SUPER_JOURNAL \<equiv> 0x4000"
abbreviation SQLITE_OPEN_WAL :: u32 where "SQLITE_OPEN_WAL \<equiv> 0x80000"

abbreviation SQLITE_OK :: int where "SQLITE_OK \<equiv> 0"
abbreviation SQLITE_IOERR :: int where "SQLITE_IOERR \<equiv> 10"
abbreviation SQLITE_CANTOPEN :: int where "SQLITE_CANTOPEN \<equiv> 14"
abbreviation SQLITE_IOERR_SHORT_READ :: int where "SQLITE_IOERR_SHORT_READ \<equiv> 522"
abbreviation SQLITE_IOERR_DELETE :: int where "SQLITE_IOERR_DELETE \<equiv> 2570"

definition PERSISTENT_FILE_TYPES :: u32 where
  "PERSISTENT_FILE_TYPES =
     SQLITE_OPEN_MAIN_DB OR SQLITE_OPEN_MAIN_JOURNAL OR SQLITE_OPEN_SUPER_JOURNAL OR SQLITE_OPEN_WAL"

subsection \<open>JavaScript numbers, as far as \<open>computeDigest\<close> needs them\<close>

text \<open>
  \<open>computeDigest\<close> computes \<open>h = 31 * h + (v * 307)\<close> on JavaScript numbers, which are
  IEEE 754 binary64 values; only the final \<open>h >>> 0\<close> converts to an unsigned 32-bit
  integer. Every value that occurs is a non-negative integer or \<open>Infinity\<close>, so the
  numbers are modelled as such. \<open>fl n\<close> is the binary64 value nearest to the integer
  \<open>n\<close> (53 significant bits, ties to even), \<open>Infinity\<close> when that value is \<open>2^1024\<close> or
  more. \<open>x >>> 0\<close> is \<open>ToUint32\<close>: the integer modulo \<open>2^32\<close>, and \<open>0\<close> for
  \<open>Infinity\<close>.
\<close>

datatype jsnum = Finite nat | Infinity

fun bitlen :: "nat \<Rightarrow> nat" where
  "bitlen n = (if n = 0 then 0 else Suc (bitlen (n div 2)))"

declare bitlen.simps [simp del]

definition fl :: "nat \<Rightarrow> jsnum" where
  "fl n =
     (if n < 2 ^ 53 then Finite n
      else let e = bitlen n - 53;
               q = n div 2 ^ e;
               r = n mod 2 ^ e;
               q' = (if 2 ^ (e - 1) < r \<or> (r = 2 ^ (e - 1) \<and> odd q) then q + 1 else q)
           in if 2 ^ 1024 \<le> q' * 2 ^ e then Infinity else Finite (q' * 2 ^ e))"

definition js_mul :: "nat \<Rightarrow> jsnum \<Rightarrow> jsnum" where
  "js_mul k h = (case h of Infinity \<Rightarrow> Infinity | Finite a \<Rightarrow> fl (k * a))"

definition js_add :: "jsnum \<Rightarrow> nat \<Rightarrow> jsnum" where
  "js_add h c = (case h of Infinity \<Rightarrow> Infinity | Finite a \<Rightarrow> fl (a + c))"

definition toUint32 :: "jsnum \<Rightarrow> u32" where
  "toUint32 h = (case h of Infinity \<Rightarrow> 0 | Finite a \<Rightarrow> of_nat a)"

subsection \<open>computeDigest\<close>

definition digest_step :: "jsnum \<Rightarrow> byte \<Rightarrow> jsnum" where
  "digest_step h v = js_add (js_mul 31 h) (unat v * 307)"

definition computeDigest :: "byte list \<Rightarrow> u32 \<times> u32" where
  "computeDigest byteArray =
     (toUint32 (foldl digest_step (Finite 0xdeadbeef) byteArray),
      toUint32 (foldl digest_step (Finite 0x41c6ce57) byteArray))"

text \<open>
  The digest as two accumulators with arithmetic modulo \<open>2^32\<close> at every step: what the
  loop would compute on 32-bit unsigned integers. It is not what \<open>computeDigest\<close>
  computes; it is here to be compared with it.
\<close>

definition digest_step32 :: "u32 \<Rightarrow> byte \<Rightarrow> u32" where
  "digest_step32 h v = 31 * h + ucast v * 307"

definition digest_mod32 :: "byte list \<Rightarrow> u32 \<times> u32" where
  "digest_mod32 byteArray =
     (foldl digest_step32 0xdeadbeef byteArray, foldl digest_step32 0x41c6ce57 byteArray)"

subsection \<open>Typed arrays and the header buffer\<close>

text \<open>
  \<open>TextEncoder.encodeInto(path, buf)\<close> writes the encoding of \<open>path\<close> from index 0 of
  \<open>buf\<close>, as many whole code points as fit, and leaves the rest of \<open>buf\<close> as it was;
  \<open>written\<close> is the number of bytes written. In UTF-8 a byte \<open>10xxxxxx\<close>, that is a
  byte from \<open>0x80\<close> to \<open>0xBF\<close>, continues a code point.
\<close>

definition in_range :: "byte \<Rightarrow> byte \<Rightarrow> byte \<Rightarrow> bool" where
  "in_range b lo hi = (lo \<le> b \<and> b \<le> hi)"

definition is_continuation :: "byte \<Rightarrow> bool" where
  "is_continuation b = in_range b 0x80 0xBF"

fun encode_fit :: "nat \<Rightarrow> byte list \<Rightarrow> nat" where
  "encode_fit 0 bs = 0"
| "encode_fit (Suc k) bs =
     (if length bs \<le> Suc k then length bs
      else if is_continuation (bs ! Suc k) then encode_fit k bs
      else Suc k)"

definition encodeInto :: "jsstring \<Rightarrow> byte list \<Rightarrow> byte list \<times> nat" where
  "encodeInto str buf =
     (let written = encode_fit (length buf) str
      in (take written str @ drop written buf, written))"

text \<open>\<open>DataView.setUint32\<close> and \<open>getUint32\<close> are big-endian (no \<open>littleEndian\<close> argument).\<close>

definition be_bytes :: "u32 \<Rightarrow> byte list" where
  "be_bytes w = [ucast (drop_bit 24 w), ucast (drop_bit 16 w), ucast (drop_bit 8 w), ucast w]"

definition be_word :: "byte list \<Rightarrow> u32" where
  "be_word bs = foldl (\<lambda>acc b. push_bit 8 acc OR ucast b) 0 bs"

definition setUint32 :: "byte list \<Rightarrow> nat \<Rightarrow> u32 \<Rightarrow> byte list" where
  "setUint32 buf off w = take off buf @ be_bytes w @ drop (off + 4) buf"

definition getUint32 :: "byte list \<Rightarrow> nat \<Rightarrow> u32" where
  "getUint32 buf off = be_word (take 4 (drop off buf))"

text \<open>
  A \<open>Uint32Array\<close> is read from and written to a file in the byte order of the platform,
  which is little-endian wherever this code runs.
\<close>

definition le_bytes :: "u32 \<Rightarrow> byte list" where
  "le_bytes w = [ucast w, ucast (drop_bit 8 w), ucast (drop_bit 16 w), ucast (drop_bit 24 w)]"

definition le_word :: "byte list \<Rightarrow> u32" where
  "le_word bs = foldr (\<lambda>b acc. push_bit 8 acc OR ucast b) bs 0"

definition digest_bytes :: "u32 \<times> u32 \<Rightarrow> byte list" where
  "digest_bytes d = le_bytes (fst d) @ le_bytes (snd d)"

definition digest_words :: "byte list \<Rightarrow> u32 \<times> u32" where
  "digest_words bs = (le_word (take 4 bs), le_word (take 4 (drop 4 bs)))"

text \<open>
  \<open>Array.prototype.findIndex\<close>: the first index whose element satisfies the predicate,
  \<open>-1\<close> when there is none. \<open>subarray(0, e)\<close> counts a negative \<open>e\<close> from the end.
\<close>

fun findIndex :: "('a \<Rightarrow> bool) \<Rightarrow> 'a list \<Rightarrow> int" where
  "findIndex P [] = -1"
| "findIndex P (x # xs) =
     (if P x then 0 else (let i = findIndex P xs in if i < 0 then -1 else i + 1))"

definition subarray0 :: "'a list \<Rightarrow> int \<Rightarrow> 'a list" where
  "subarray0 xs e = (if e < 0 then take (nat (int (length xs) + e)) xs else take (nat e) xs)"

text \<open>
  The byte lists that are the UTF-8 encoding of a string: a byte up to \<open>0x7F\<close> stands
  alone; a lead byte \<open>0xC2\<close> to \<open>0xF4\<close> is followed by one, two or three continuation
  bytes, the first of them within the bounds that exclude overlong forms, surrogates and
  code points above \<open>U+10FFFF\<close>.
\<close>

definition bytes_needed :: "byte \<Rightarrow> nat" where
  "bytes_needed b =
     (if in_range b 0xC2 0xDF then 1
      else if in_range b 0xE0 0xEF then 2
      else if in_range b 0xF0 0xF4 then 3
      else 0)"

definition lower_boundary :: "byte \<Rightarrow> byte" where
  "lower_boundary b = (if b = 0xE0 then 0xA0 else if b = 0xF0 then 0x90 else 0x80)"

definition upper_boundary :: "byte \<Rightarrow> byte" where
  "upper_boundary b = (if b = 0xED then 0x9F else if b = 0xF4 then 0x8F else 0xBF)"

fun utf8_wf :: "byte list \<Rightarrow> bool" where
  "utf8_wf [] = True"
| "utf8_wf (b # bs) =
     (if b \<le> 0x7F then utf8_wf bs
      else (let n = bytes_needed b
            in n \<noteq> 0 \<and> n \<le> length bs \<and>
               in_range (hd bs) (lower_boundary b) (upper_boundary b) \<and>
               list_all is_continuation (take n bs) \<and> utf8_wf (drop n bs)))"

text \<open>
  \<open>TextDecoder.decode\<close> of \<open>new TextDecoder()\<close> (UTF-8, not fatal, \<open>ignoreBOM\<close> false),
  with the string it returns again represented by its UTF-8 encoding. \<open>utf8_decoder\<close>
  is the decoder of the Encoding standard: \<open>pending\<close> holds the bytes of the code point
  that is being read, \<open>need\<close> the number of bytes it still needs, \<open>lo\<close> and \<open>hi\<close> the
  bounds of the next byte. A complete sequence is kept as it is. A byte outside the
  bounds ends the sequence before it, which becomes \<open>U+FFFD\<close>, and is then read as the
  start of a new code point; a sequence that the end of the input cuts off becomes
  \<open>U+FFFD\<close>. \<open>decode\<close> drops a leading \<open>U+FEFF\<close>.
\<close>

definition replacement :: "byte list" where
  "replacement = [0xEF, 0xBF, 0xBD]"

fun utf8_decoder :: "byte list \<Rightarrow> nat \<Rightarrow> byte \<Rightarrow> byte \<Rightarrow> byte list \<Rightarrow> byte list" where
  "utf8_decoder pending need lo hi [] = (if need = 0 then [] else replacement)"
| "utf8_decoder pending need lo hi (b # bs) =
     (if need \<noteq> 0 \<and> in_range b lo hi then
        (if need = 1 then pending @ b # utf8_decoder [] 0 0x80 0xBF bs
         else utf8_decoder (pending @ [b]) (need - 1) 0x80 0xBF bs)
      else
        (if need \<noteq> 0 then replacement else []) @
        (if b \<le> 0x7F then b # utf8_decoder [] 0 0x80 0xBF bs
         else if bytes_needed b = 0 then replacement @ utf8_decoder [] 0 0x80 0xBF bs
         else utf8_decoder [b] (bytes_needed b) (lower_boundary b) (upper_boundary b) bs))"

definition textDecoder_decode :: "byte list \<Rightarrow> jsstring" where
  "textDecoder_decode bytes =
     (let out = utf8_decoder [] 0 0x80 0xBF bytes
      in if take 3 out = [0xEF, 0xBB, 0xBF] then drop 3 out else out)"

subsection \<open>The state: OPFS and the pool object\<close>

datatype error =
    PathTooLong
  | PoolFull
  | FileNotFound
  | InvalidSize
  | InvalidHeader
  | NoAvailableHandles
  | TypeError
  | InvalidStateError
  | NoModificationAllowedError
  | NotFoundError
  | ReferenceError

text \<open>xOpen's file objects \<open>{path, flags, sah}\<close> with their \<open>lockType\<close>.\<close>

record openfile =
  file_path :: jsstring
  file_flags :: u32
  file_sah :: sah
  file_lockType :: int

text \<open>
  The fields \<open>opfs_dir\<close>, \<open>opfs_open\<close> and \<open>opfs_next\<close> are the origin private file
  system: the files of \<open>vfsDir\<close> in listing order, the open SyncAccessHandles with the
  name of the file each is open on, and the identity of the next handle object. The
  other fields are those of class \<open>OpfsSAHPool\<close>; \<open>lastError\<close> is \<open>$error\<close>.
\<close>

record state =
  opfs_dir :: "(fname \<times> byte list) list"
  opfs_open :: "(sah \<times> fname) list"
  opfs_next :: sah
  mapSAHToName :: "(sah \<times> fname) list"
  mapFilenameToSAH :: "(jsstring \<times> sah) list"
  availableSAH :: "sah list"
  mapIdToFile :: "(nat \<times> openfile) list"
  apBody :: "byte list"
  lastError :: "error option"

text \<open>A new pool object over an empty directory: \<open>apBody\<close> is \<open>new Uint8Array(516)\<close>.\<close>

definition init_state :: state where
  "init_state =
     \<lparr>opfs_dir = [], opfs_open = [], opfs_next = 0, mapSAHToName = [],
      mapFilenameToSAH = [], availableSAH = [], mapIdToFile = [],
      apBody = replicate HEADER_CORPUS_SIZE 0, lastError = None\<rparr>"

definition set_add :: "'a list \<Rightarrow> 'a \<Rightarrow> 'a list" where
  "set_add xs x = (if x \<in> set xs then xs else xs @ [x])"

definition getCapacity :: "state \<Rightarrow> nat" where
  "getCapacity s = length (mapSAHToName s)"

definition getFileCount :: "state \<Rightarrow> nat" where
  "getFileCount s = length (mapFilenameToSAH s)"

definition storeErr :: "state \<Rightarrow> error option \<Rightarrow> state" where
  "storeErr s e = s\<lparr>lastError := e\<rparr>"

subsection \<open>FileSystemSyncAccessHandle and directory operations\<close>

text \<open>
  The contents behind a handle; \<open>None\<close> when the handle is closed, in which case every
  method of the handle throws \<open>InvalidStateError\<close>.
\<close>

definition sah_file :: "state \<Rightarrow> sah \<Rightarrow> byte list option" where
  "sah_file s h =
     (case map_of (opfs_open s) h of
        None \<Rightarrow> None
      | Some nm \<Rightarrow> map_of (opfs_dir s) nm)"

definition put_file :: "state \<Rightarrow> sah \<Rightarrow> byte list \<Rightarrow> state" where
  "put_file s h c =
     (case map_of (opfs_open s) h of
        None \<Rightarrow> s
      | Some nm \<Rightarrow> s\<lparr>opfs_dir := AList.update nm c (opfs_dir s)\<rparr>)"

text \<open>
  \<open>read(buf, {at})\<close> copies the bytes the file has from \<open>at\<close> on, at most
  \<open>buf.length\<close>, to the start of \<open>buf\<close> and returns their number.
\<close>

definition sah_read :: "state \<Rightarrow> sah \<Rightarrow> byte list \<Rightarrow> nat \<Rightarrow> (byte list \<times> nat) option" where
  "sah_read s h buf at =
     (case sah_file s h of
        None \<Rightarrow> None
      | Some c \<Rightarrow>
          (let got = take (length buf) (drop at c)
           in Some (got @ drop (length got) buf, length got)))"

text \<open>\<open>write(bytes, {at})\<close> fills the gap with zero bytes when \<open>at\<close> is past the end.\<close>

definition write_at :: "byte list \<Rightarrow> nat \<Rightarrow> byte list \<Rightarrow> byte list" where
  "write_at c at bytes =
     take at c @ replicate (at - length c) 0 @ bytes @ drop (at + length bytes) c"

definition sah_write :: "state \<Rightarrow> sah \<Rightarrow> byte list \<Rightarrow> nat \<Rightarrow> (state \<times> nat) option" where
  "sah_write s h bytes at =
     (case sah_file s h of
        None \<Rightarrow> None
      | Some c \<Rightarrow> Some (put_file s h (write_at c at bytes), length bytes))"

text \<open>\<open>truncate(n)\<close> cuts the file to \<open>n\<close> bytes or pads it with zero bytes up to \<open>n\<close>.\<close>

definition truncate_to :: "byte list \<Rightarrow> nat \<Rightarrow> byte list" where
  "truncate_to c n = take n c @ replicate (n - length c) 0"

definition sah_truncate :: "state \<Rightarrow> sah \<Rightarrow> nat \<Rightarrow> state option" where
  "sah_truncate s h n =
     (case sah_file s h of
        None \<Rightarrow> None
      | Some c \<Rightarrow> Some (put_file s h (truncate_to c n)))"

definition sah_getSize :: "state \<Rightarrow> sah \<Rightarrow> nat option" where
  "sah_getSize s h = map_option length (sah_file s h)"

definition sah_flush :: "state \<Rightarrow> sah \<Rightarrow> state option" where
  "sah_flush s h = (case sah_file s h of None \<Rightarrow> None | Some c \<Rightarrow> Some s)"

definition sah_close :: "state \<Rightarrow> sah \<Rightarrow> state" where
  "sah_close s h = s\<lparr>opfs_open := AList.delete h (opfs_open s)\<rparr>"

text \<open>
  \<open>dirHandle.getFileHandle(name, {create: true})\<close> followed by
  \<open>createSyncAccessHandle()\<close>: the file is created empty when it is missing; the
  handle is refused while another handle is open on the file.
\<close>

definition getFileHandle_create :: "state \<Rightarrow> fname \<Rightarrow> state" where
  "getFileHandle_create s name =
     (case map_of (opfs_dir s) name of
        None \<Rightarrow> s\<lparr>opfs_dir := opfs_dir s @ [(name, [])]\<rparr>
      | Some c \<Rightarrow> s)"

definition createSyncAccessHandle :: "state \<Rightarrow> fname \<Rightarrow> (error + sah) \<times> state" where
  "createSyncAccessHandle s name =
     (if name \<in> snd ` set (opfs_open s) then (Inl NoModificationAllowedError, s)
      else if map_of (opfs_dir s) name = None then (Inl NotFoundError, s)
      else (Inr (opfs_next s),
            s\<lparr>opfs_open := opfs_open s @ [(opfs_next s, name)],
              opfs_next := Suc (opfs_next s)\<rparr>))"

definition removeEntry :: "state \<Rightarrow> fname \<Rightarrow> (error + unit) \<times> state" where
  "removeEntry s name =
     (if map_of (opfs_dir s) name = None then (Inl NotFoundError, s)
      else if name \<in> snd ` set (opfs_open s) then (Inl NoModificationAllowedError, s)
      else (Inr (), s\<lparr>opfs_dir := AList.delete name (opfs_dir s)\<rparr>))"

subsection \<open>OpfsSAHPool: the header of a slot\<close>

definition nextAvailableSAH :: "state \<Rightarrow> sah option" where
  "nextAvailableSAH s = (case availableSAH s of [] \<Rightarrow> None | rc # rest \<Rightarrow> Some rc)"

text \<open>
  The first half of \<open>setAssociatedPath\<close>, which does not touch the handle: the path is
  encoded into the pool's one header buffer \<open>apBody\<close>, the \<open>toss\<close> for a long path
  comes after that write, then the flags are stored and the digest is computed.
\<close>

definition fillHeader :: "state \<Rightarrow> jsstring \<Rightarrow> u32 \<Rightarrow> (error + u32 \<times> u32) \<times> state" where
  "fillHeader s path flags =
     (let enc = encodeInto path (apBody s);
          s1 = s\<lparr>apBody := fst enc\<rparr>
      in if HEADER_MAX_PATH_SIZE \<le> snd enc then (Inl PathTooLong, s1)
         else (let s2 = s1\<lparr>apBody := setUint32 (apBody s1) HEADER_OFFSET_FLAGS flags\<rparr>
               in (Inr (computeDigest (apBody s2)), s2)))"

definition setAssociatedPath :: "state \<Rightarrow> sah \<Rightarrow> jsstring \<Rightarrow> u32 \<Rightarrow> (error + unit) \<times> state" where
  "setAssociatedPath s h path flags =
     (case fillHeader s path flags of
        (Inl e, s1) \<Rightarrow> (Inl e, s1)
      | (Inr digest, s1) \<Rightarrow>
          (case sah_write s1 h (apBody s1) 0 of
             None \<Rightarrow> (Inl InvalidStateError, s1)
           | Some (s2, n) \<Rightarrow>
               (case sah_write s2 h (digest_bytes digest) HEADER_OFFSET_DIGEST of
                  None \<Rightarrow> (Inl InvalidStateError, s2)
                | Some (s3, n') \<Rightarrow>
                    (case sah_flush s3 h of
                       None \<Rightarrow> (Inl InvalidStateError, s3)
                     | Some s4 \<Rightarrow>
                         (if path \<noteq> [] then
                            (Inr (),
                             s4\<lparr>mapFilenameToSAH := AList.update path h (mapFilenameToSAH s4),
                                availableSAH := removeAll h (availableSAH s4)\<rparr>)
                          else
                            (case sah_truncate s4 h HEADER_OFFSET_DATA of
                               None \<Rightarrow> (Inl InvalidStateError, s4)
                             | Some s5 \<Rightarrow>
                                 (Inr (), s5\<lparr>availableSAH := set_add (availableSAH s5) h\<rparr>)))))))"

definition first_nonzero :: "byte list \<Rightarrow> bool" where
  "first_nonzero buf = (case buf of [] \<Rightarrow> False | b # bs \<Rightarrow> b \<noteq> 0)"

text \<open>
  \<open>getAssociatedPath\<close>. The function \<open>warn\<close> that its two error branches call first is
  a constant of \<open>installOpfsSAHPoolVfs\<close> and is not in scope in class \<open>OpfsSAHPool\<close>:
  under \<open>'use strict'\<close> the call throws a \<open>ReferenceError\<close>, and the
  \<open>setAssociatedPath(sah, '', 0)\<close> and the \<open>return ''\<close> behind it are not reached. The
  header has been read into \<open>apBody\<close> by then.
\<close>

definition getAssociatedPath :: "state \<Rightarrow> sah \<Rightarrow> (error + jsstring) \<times> state" where
  "getAssociatedPath s h =
     (case sah_read s h (apBody s) 0 of
        None \<Rightarrow> (Inl InvalidStateError, s)
      | Some (body, n) \<Rightarrow>
          (let s1 = s\<lparr>apBody := body\<rparr>;
               flags = getUint32 (apBody s1) HEADER_OFFSET_FLAGS
           in if first_nonzero (apBody s1) \<and>
                 (flags AND SQLITE_OPEN_DELETEONCLOSE \<noteq> 0 \<or> flags AND PERSISTENT_FILE_TYPES = 0)
              then (Inl ReferenceError, s1)
              else
                (case sah_read s1 h (replicate HEADER_DIGEST_SIZE 0) HEADER_OFFSET_DIGEST of
                   None \<Rightarrow> (Inl InvalidStateError, s1)
                 | Some (fileDigest, n') \<Rightarrow>
                     (if digest_words fileDigest = computeDigest (apBody s1) then
                        (let pathBytes = findIndex (\<lambda>v. v = 0) (apBody s1)
                         in if pathBytes = 0 then
                              (case sah_truncate s1 h HEADER_OFFSET_DATA of
                                 None \<Rightarrow> (Inl InvalidStateError, s1)
                               | Some s2 \<Rightarrow> (Inr [], s2))
                            else (Inr (textDecoder_decode (subarray0 (apBody s1) pathBytes)), s1))
                      else (Inl ReferenceError, s1)))))"

subsection \<open>OpfsSAHPool: capacity\<close>

text \<open>
  \<open>addCapacity(n)\<close>: the argument lists the names \<open>getRandomName()\<close> returns in the
  \<open>n\<close> rounds of the loop.
\<close>

fun addCapacity :: "state \<Rightarrow> fname list \<Rightarrow> (error + nat) \<times> state" where
  "addCapacity s [] = (Inr (getCapacity s), s)"
| "addCapacity s (name # names) =
     (case createSyncAccessHandle (getFileHandle_create s name) name of
        (Inl e, s1) \<Rightarrow> (Inl e, s1)
      | (Inr ah, s1) \<Rightarrow>
          (case setAssociatedPath
                  (s1\<lparr>mapSAHToName := AList.update ah name (mapSAHToName s1)\<rparr>) ah [] 0 of
             (Inl e, s2) \<Rightarrow> (Inl e, s2)
           | (Inr u, s2) \<Rightarrow> addCapacity s2 names))"

text \<open>
  \<open>reduceCapacity(n)\<close>: the loop runs over \<open>Array.from(this.availableSAH)\<close>, a copy made
  before the first round. \<open>n\<close> is a number of slots. A name that the map does not have
  reaches \<open>removeEntry\<close> as \<open>undefined\<close>, which it reads as the string "undefined".
\<close>

fun reduce_loop :: "nat \<Rightarrow> sah list \<Rightarrow> nat \<Rightarrow> state \<Rightarrow> (error + nat) \<times> state" where
  "reduce_loop n [] nRm s = (Inr nRm, s)"
| "reduce_loop n (ah # rest) nRm s =
     (if nRm = n \<or> getFileCount s = getCapacity s then (Inr nRm, s)
      else
        (let name = (case map_of (mapSAHToName s) ah of None \<Rightarrow> ''undefined'' | Some nm \<Rightarrow> nm)
         in case removeEntry (sah_close s ah) name of
              (Inl e, s1) \<Rightarrow> (Inl e, s1)
            | (Inr u, s1) \<Rightarrow>
                reduce_loop n rest (Suc nRm)
                  (s1\<lparr>mapSAHToName := AList.delete ah (mapSAHToName s1),
                      availableSAH := removeAll ah (availableSAH s1)\<rparr>)))"

definition reduceCapacity :: "state \<Rightarrow> nat \<Rightarrow> (error + nat) \<times> state" where
  "reduceCapacity s n = reduce_loop n (availableSAH s) 0 s"

subsection \<open>OpfsSAHPool: releasing and acquiring the handles\<close>

definition releaseAccessHandles :: "state \<Rightarrow> state" where
  "releaseAccessHandles s =
     (foldl sah_close s (map fst (mapSAHToName s)))
       \<lparr>mapSAHToName := [], mapFilenameToSAH := [], availableSAH := []\<rparr>"

text \<open>
  One callback of \<open>acquireAccessHandles\<close>, without its \<open>catch\<close>. After the \<open>await\<close> of
  the handle a callback runs to its end without interruption.
\<close>

definition acquire_one :: "bool \<Rightarrow> state \<Rightarrow> fname \<Rightarrow> (error + unit) \<times> state" where
  "acquire_one clearFiles s name =
     (case createSyncAccessHandle s name of
        (Inl e, s1) \<Rightarrow> (Inl e, s1)
      | (Inr ah, s1) \<Rightarrow>
          (let s2 = s1\<lparr>mapSAHToName := AList.update ah name (mapSAHToName s1)\<rparr>
           in if clearFiles then
                (case sah_truncate s2 ah HEADER_OFFSET_DATA of
                   None \<Rightarrow> (Inl InvalidStateError, s2)
                 | Some s3 \<Rightarrow> setAssociatedPath s3 ah [] 0)
              else
                (case getAssociatedPath s2 ah of
                   (Inl e, s3) \<Rightarrow> (Inl e, s3)
                 | (Inr path, s3) \<Rightarrow>
                     (if path \<noteq> [] then
                        (Inr (),
                         s3\<lparr>mapFilenameToSAH := AList.update path ah (mapFilenameToSAH s3)\<rparr>)
                      else (Inr (), s3\<lparr>availableSAH := set_add (availableSAH s3) ah\<rparr>)))))"

text \<open>
  The callbacks in the order of the directory listing. A callback that throws stores the
  error and releases the handles registered so far; the callbacks of the other files
  still run, and the promise rejects with the first error.
\<close>

fun acquire_all :: "bool \<Rightarrow> fname list \<Rightarrow> state \<Rightarrow> (error + unit) \<times> state" where
  "acquire_all clearFiles [] s = (Inr (), s)"
| "acquire_all clearFiles (name # rest) s =
     (case acquire_one clearFiles s name of
        (Inl e, s1) \<Rightarrow>
          (Inl e, snd (acquire_all clearFiles rest (releaseAccessHandles (storeErr s1 (Some e)))))
      | (Inr u, s1) \<Rightarrow> acquire_all clearFiles rest s1)"

definition acquireAccessHandles :: "state \<Rightarrow> bool \<Rightarrow> (error + unit) \<times> state" where
  "acquireAccessHandles s clearFiles = acquire_all clearFiles (map fst (opfs_dir s)) s"

definition reset :: "state \<Rightarrow> bool \<Rightarrow> (error + unit) \<times> state" where
  "reset s clearFiles = acquireAccessHandles (releaseAccessHandles s) clearFiles"

subsection \<open>OpfsSAHPool.deletePath and SAHPoolUtil\<close>

definition deletePath :: "state \<Rightarrow> jsstring \<Rightarrow> (error + bool) \<times> state" where
  "deletePath s path =
     (case map_of (mapFilenameToSAH s) path of
        None \<Rightarrow> (Inr False, s)
      | Some h \<Rightarrow>
          (case setAssociatedPath
                  (s\<lparr>mapFilenameToSAH := AList.delete path (mapFilenameToSAH s)\<rparr>) h [] 0 of
             (Inl e, s1) \<Rightarrow> (Inl e, s1)
           | (Inr u, s1) \<Rightarrow> (Inr True, s1)))"

definition unlink :: "state \<Rightarrow> jsstring \<Rightarrow> (error + bool) \<times> state" where
  "unlink s filename = deletePath s filename"

definition exportFile :: "state \<Rightarrow> jsstring \<Rightarrow> error + byte list" where
  "exportFile s name =
     (case map_of (mapFilenameToSAH s) name of
        None \<Rightarrow> Inl FileNotFound
      | Some h \<Rightarrow>
          (case sah_getSize s h of
             None \<Rightarrow> Inl InvalidStateError
           | Some sz \<Rightarrow>
               (let n = int sz - int HEADER_OFFSET_DATA;
                    b = replicate (nat (if n \<ge> 0 then n else 0)) (0 :: byte)
                in if n > 0 then
                     (case sah_read s h b HEADER_OFFSET_DATA of
                        None \<Rightarrow> Inl InvalidStateError
                      | Some (b', k) \<Rightarrow> Inr b')
                   else Inr b)))"

text \<open>The 15 character codes of "SQLite format 3".\<close>

definition sqlite_header :: "byte list" where
  "sqlite_header =
     [0x53, 0x51, 0x4C, 0x69, 0x74, 0x65, 0x20, 0x66, 0x6F, 0x72, 0x6D, 0x61, 0x74, 0x20, 0x33]"

text \<open>
  The loop over the header; \<open>bytes[i]\<close> past the end is \<open>undefined\<close> and equals no
  character code.
\<close>

fun header_matches :: "byte list \<Rightarrow> byte list \<Rightarrow> bool" where
  "header_matches [] bytes = True"
| "header_matches (c # cs) [] = False"
| "header_matches (c # cs) (b # bs) = (if c \<noteq> b then False else header_matches cs bs)"

definition importDb :: "state \<Rightarrow> jsstring \<Rightarrow> byte list \<Rightarrow> (error + unit) \<times> state" where
  "importDb s name bytes =
     (let n = length bytes
      in if n < 512 \<or> n mod 512 \<noteq> 0 then (Inl InvalidSize, s)
         else if \<not> header_matches sqlite_header bytes then (Inl InvalidHeader, s)
         else
           (case (case map_of (mapFilenameToSAH s) name of
                    Some h \<Rightarrow> Some h
                  | None \<Rightarrow> nextAvailableSAH s) of
              None \<Rightarrow> (Inl NoAvailableHandles, s)
            | Some h \<Rightarrow>
                (case sah_write s h bytes HEADER_OFFSET_DATA of
                   None \<Rightarrow> (Inl InvalidStateError, s)
                 | Some (s1, k) \<Rightarrow> setAssociatedPath s1 h name SQLITE_OPEN_MAIN_DB)))"

definition wipeFiles :: "state \<Rightarrow> (error + unit) \<times> state" where
  "wipeFiles s = reset s True"

subsection \<open>The sqlite3_vfs and sqlite3_io_methods implementations\<close>

text \<open>
  \<open>xOpen\<close>: the argument \<open>path\<close> is the value of the constant \<open>path\<close> of the source, the
  result of \<open>getPath(zName)\<close> or of \<open>getRandomName()\<close>. The result is the return code;
  a caught exception is left in \<open>lastError\<close>.
\<close>

definition xOpen :: "state \<Rightarrow> jsstring \<Rightarrow> nat \<Rightarrow> u32 \<Rightarrow> int \<times> state" where
  "xOpen s path pFile flags =
     (case (case map_of (mapFilenameToSAH s) path of
              Some h \<Rightarrow> (Inr h, s)
            | None \<Rightarrow>
                (if flags AND SQLITE_OPEN_CREATE \<noteq> 0 then
                   (if getFileCount s < getCapacity s then
                      (case nextAvailableSAH s of
                         None \<Rightarrow>
                           (case fillHeader s path flags of
                              (Inl e, s1) \<Rightarrow> (Inl e, s1)
                            | (Inr d, s1) \<Rightarrow> (Inl TypeError, s1))
                       | Some h \<Rightarrow>
                           (case setAssociatedPath s h path flags of
                              (Inl e, s1) \<Rightarrow> (Inl e, s1)
                            | (Inr u, s1) \<Rightarrow> (Inr h, s1)))
                    else (Inl PoolFull, s))
                 else (Inl FileNotFound, s))) of
        (Inl e, s1) \<Rightarrow> (SQLITE_CANTOPEN, storeErr s1 (Some e))
      | (Inr h, s1) \<Rightarrow>
          (SQLITE_OK,
           s1\<lparr>mapIdToFile :=
                 AList.update pFile
                   \<lparr>file_path = path, file_flags = flags, file_sah = h, file_lockType = 0\<rparr>
                   (mapIdToFile s1)\<rparr>))"

definition xClose :: "state \<Rightarrow> nat \<Rightarrow> int \<times> state" where
  "xClose s0 pFile =
     (let s = storeErr s0 None
      in case map_of (mapIdToFile s) pFile of
           None \<Rightarrow> (SQLITE_OK, s)
         | Some f \<Rightarrow>
             (case sah_flush s (file_sah f) of
                None \<Rightarrow> (SQLITE_IOERR, storeErr s (Some InvalidStateError))
              | Some s1 \<Rightarrow>
                  (let s2 = s1\<lparr>mapIdToFile := AList.delete pFile (mapIdToFile s1)\<rparr>
                   in if file_flags f AND SQLITE_OPEN_DELETEONCLOSE \<noteq> 0 then
                        (case deletePath s2 (file_path f) of
                           (Inl e, s3) \<Rightarrow> (SQLITE_IOERR, storeErr s3 (Some e))
                         | (Inr b, s3) \<Rightarrow> (SQLITE_OK, s3))
                      else (SQLITE_OK, s2))))"

definition xDelete :: "state \<Rightarrow> jsstring \<Rightarrow> int \<times> state" where
  "xDelete s0 path =
     (case deletePath (storeErr s0 None) path of
        (Inl e, s1) \<Rightarrow> (SQLITE_IOERR_DELETE, storeErr s1 (Some e))
      | (Inr b, s1) \<Rightarrow> (SQLITE_OK, s1))"

text \<open>\<open>TypedArray.fill(v, start, end)\<close> clamps both indices to the length of the array.\<close>

definition fill :: "'a list \<Rightarrow> 'a \<Rightarrow> nat \<Rightarrow> nat \<Rightarrow> 'a list" where
  "fill xs v start end' =
     (let b = min start (length xs); e = min end' (length xs)
      in if b < e then take b xs @ replicate (e - b) v @ drop e xs else xs)"

text \<open>
  \<open>xRead\<close>: \<open>dest\<close> is the view \<open>wasm.heap8u().subarray(pDest, pDest + n)\<close> of the
  destination, and the result holds the return code and that view afterwards. A
  \<open>pFile\<close> that is not open throws out of the method (\<open>file.path\<close> of \<open>undefined\<close>).
\<close>

definition xRead ::
  "state \<Rightarrow> nat \<Rightarrow> byte list \<Rightarrow> nat \<Rightarrow> nat \<Rightarrow> (error + int \<times> byte list) \<times> state" where
  "xRead s0 pFile dest n offset64 =
     (let s = storeErr s0 None
      in case map_of (mapIdToFile s) pFile of
           None \<Rightarrow> (Inl TypeError, s)
         | Some f \<Rightarrow>
             (case sah_read s (file_sah f) dest (HEADER_OFFSET_DATA + offset64) of
                None \<Rightarrow> (Inr (SQLITE_IOERR, dest), storeErr s (Some InvalidStateError))
              | Some (d, nRead) \<Rightarrow>
                  (if nRead < n then (Inr (SQLITE_IOERR_SHORT_READ, fill d 0 nRead n), s)
                   else (Inr (SQLITE_OK, d), s))))"

definition xWrite :: "state \<Rightarrow> nat \<Rightarrow> byte list \<Rightarrow> nat \<Rightarrow> nat \<Rightarrow> (error + int) \<times> state" where
  "xWrite s0 pFile src n offset64 =
     (let s = storeErr s0 None
      in case map_of (mapIdToFile s) pFile of
           None \<Rightarrow> (Inl TypeError, s)
         | Some f \<Rightarrow>
             (case sah_write s (file_sah f) src (HEADER_OFFSET_DATA + offset64) of
                None \<Rightarrow> (Inr SQLITE_IOERR, storeErr s (Some InvalidStateError))
              | Some (s1, nBytes) \<Rightarrow> (Inr (if nBytes = n then SQLITE_OK else SQLITE_IOERR), s1)))"

subsection \<open>Sequences of calls\<close>

text \<open>
  The calls a client and the SQLite core make on a pool, and the state a sequence of
  them leaves. \<open>XWrite pFile src offset\<close> writes all of \<open>src\<close>.
\<close>

datatype call =
    AddCapacity "fname list"
  | ReduceCapacity nat
  | XOpen jsstring nat u32
  | XClose nat
  | XDelete jsstring
  | Unlink jsstring
  | ImportDb jsstring "byte list"
  | XWrite nat "byte list" nat
  | Reset bool

fun step :: "state \<Rightarrow> call \<Rightarrow> state" where
  "step s (AddCapacity names) = snd (addCapacity s names)"
| "step s (ReduceCapacity n) = snd (reduceCapacity s n)"
| "step s (XOpen path pFile flags) = snd (xOpen s path pFile flags)"
| "step s (XClose pFile) = snd (xClose s pFile)"
| "step s (XDelete path) = snd (xDelete s path)"
| "step s (Unlink filename) = snd (unlink s filename)"
| "step s (ImportDb name bytes) = snd (importDb s name bytes)"
| "step s (XWrite pFile src offset64) = snd (xWrite s pFile src (length src) offset64)"
| "step s (Reset clearFiles) = snd (reset s clearFiles)"

definition run :: "state \<Rightarrow> call list \<Rightarrow> state" where
  "run s calls = foldl step s calls"

text \<open>The names of the files behind the handles \<open>hs\<close>, as \<open>mapSAHToName\<close> has them.\<close>

definition slot_files :: "state \<Rightarrow> sah list \<Rightarrow> fname list" where
  "slot_files s hs = map snd (filter (\<lambda>(h, nm). h \<in> set hs) (mapSAHToName s))"

subsection \<open>The invariant of the pool\<close>

text \<open>
  What the calls keep true of a pool: the header buffer has its 516 bytes; the directory
  lists a file once; the open handles are the registered ones, one per file, on files of
  the directory, and older than the next handle; no path is mapped twice and the empty
  path is not mapped; the handles of the used slots and the available handles are
  distinct from one another and are registered handles. With \<open>strict\<close>, every registered
  handle is moreover the handle of a used slot or available.
\<close>

definition pool_gen :: "bool \<Rightarrow> state \<Rightarrow> bool" where
  "pool_gen strict s \<longleftrightarrow>
     length (apBody s) = HEADER_CORPUS_SIZE \<and>
     distinct (map fst (opfs_dir s)) \<and>
     opfs_open s = mapSAHToName s \<and>
     list_all (\<lambda>h. h < opfs_next s) (map fst (mapSAHToName s)) \<and>
     distinct (map fst (mapSAHToName s)) \<and>
     distinct (map snd (mapSAHToName s)) \<and>
     set (map snd (mapSAHToName s)) \<subseteq> set (map fst (opfs_dir s)) \<and>
     distinct (map fst (mapFilenameToSAH s)) \<and>
     [] \<notin> set (map fst (mapFilenameToSAH s)) \<and>
     distinct (map snd (mapFilenameToSAH s) @ availableSAH s) \<and>
     set (map snd (mapFilenameToSAH s) @ availableSAH s) \<subseteq> set (map fst (mapSAHToName s)) \<and>
     (strict \<longrightarrow>
        set (map fst (mapSAHToName s)) \<subseteq> set (map snd (mapFilenameToSAH s) @ availableSAH s))"

text \<open>
  \<open>pool_wf\<close> is what every call keeps, \<open>pool_inv\<close> what every call other than
  \<open>reset(false)\<close> keeps.
\<close>

definition pool_wf :: "state \<Rightarrow> bool" where
  "pool_wf s = pool_gen False s"

definition pool_inv :: "state \<Rightarrow> bool" where
  "pool_inv s = pool_gen True s"

subsection \<open>Example states\<close>

text \<open>
  The paths "/ab" and "/a" and the flags \<open>READWRITE | CREATE | MAIN_DB\<close> of a database
  that is opened for creation.
\<close>

definition path_ab :: jsstring where
  "path_ab = [0x2F, 0x61, 0x62]"

definition path_a :: jsstring where
  "path_a = [0x2F, 0x61]"

definition flags_db :: u32 where
  "flags_db = 0x106"

text \<open>A new pool after \<open>addCapacity(2)\<close> with the random names "a" and "b".\<close>

definition ex_fresh2 :: state where
  "ex_fresh2 =
     \<lparr>opfs_dir = [(''a'', replicate 4096 0), (''b'', replicate 4096 0)],
      opfs_open = [(0, ''a''), (1, ''b'')], opfs_next = 2,
      mapSAHToName = [(0, ''a''), (1, ''b'')],
      mapFilenameToSAH = [], availableSAH = [0, 1], mapIdToFile = [],
      apBody = replicate 516 0, lastError = None\<rparr>"

text \<open>Then "/ab" is opened as file 1.\<close>

definition ex_ab :: state where
  "ex_ab =
     \<lparr>opfs_dir =
        [(''a'', [0x2F, 0x61, 0x62] @ replicate 509 0 @ [0, 0, 1, 6] @ replicate 3580 0),
         (''b'', replicate 4096 0)],
      opfs_open = [(0, ''a''), (1, ''b'')], opfs_next = 2,
      mapSAHToName = [(0, ''a''), (1, ''b'')],
      mapFilenameToSAH = [([0x2F, 0x61, 0x62], 0)], availableSAH = [1],
      mapIdToFile =
        [(1, \<lparr>file_path = [0x2F, 0x61, 0x62], file_flags = 0x106, file_sah = 0,
               file_lockType = 0\<rparr>)],
      apBody = [0x2F, 0x61, 0x62] @ replicate 509 0 @ [0, 0, 1, 6], lastError = None\<rparr>"

text \<open>Then "/a" is opened as file 2: the header of its slot reads "/ab".\<close>

definition ex_ab_a :: state where
  "ex_ab_a =
     \<lparr>opfs_dir =
        [(''a'', [0x2F, 0x61, 0x62] @ replicate 509 0 @ [0, 0, 1, 6] @ replicate 3580 0),
         (''b'', [0x2F, 0x61, 0x62] @ replicate 509 0 @ [0, 0, 1, 6] @ replicate 3580 0)],
      opfs_open = [(0, ''a''), (1, ''b'')], opfs_next = 2,
      mapSAHToName = [(0, ''a''), (1, ''b'')],
      mapFilenameToSAH = [([0x2F, 0x61, 0x62], 0), ([0x2F, 0x61], 1)], availableSAH = [],
      mapIdToFile =
        [(1, \<lparr>file_path = [0x2F, 0x61, 0x62], file_flags = 0x106, file_sah = 0,
               file_lockType = 0\<rparr>),
         (2, \<lparr>file_path = [0x2F, 0x61], file_flags = 0x106, file_sah = 1,
               file_lockType = 0\<rparr>)],
      apBody = [0x2F, 0x61, 0x62] @ replicate 509 0 @ [0, 0, 1, 6], lastError = None\<rparr>"

text \<open>
  After "/ab" is opened, \<open>addCapacity(1)\<close> with the random name "c": the header of the
  new slot has the path bytes that the header buffer held, with the flags 0.
\<close>

definition ex_ab_c :: state where
  "ex_ab_c =
     \<lparr>opfs_dir =
        [(''a'', [0x2F, 0x61, 0x62] @ replicate 509 0 @ [0, 0, 1, 6] @ replicate 3580 0),
         (''b'', replicate 4096 0),
         (''c'', [0x2F, 0x61, 0x62] @ replicate 4093 0)],
      opfs_open = [(0, ''a''), (1, ''b''), (2, ''c'')], opfs_next = 3,
      mapSAHToName = [(0, ''a''), (1, ''b''), (2, ''c'')],
      mapFilenameToSAH = [([0x2F, 0x61, 0x62], 0)], availableSAH = [1, 2],
      mapIdToFile =
        [(1, \<lparr>file_path = [0x2F, 0x61, 0x62], file_flags = 0x106, file_sah = 0,
               file_lockType = 0\<rparr>)],
      apBody = [0x2F, 0x61, 0x62] @ replicate 513 0, lastError = None\<rparr>"

text \<open>
  A pool of three slots, with the random names "a", "b" and "c", in which "/ab" and then
  "/a" were opened, after \<open>reset(false)\<close>: the handle of the file "a" is registered,
  but its slot is neither used nor available.
\<close>

definition ex_orphan :: state where
  "ex_orphan =
     \<lparr>opfs_dir =
        [(''a'', [0x2F, 0x61, 0x62] @ replicate 509 0 @ [0, 0, 1, 6] @ replicate 3580 0),
         (''b'', [0x2F, 0x61, 0x62] @ replicate 509 0 @ [0, 0, 1, 6] @ replicate 3580 0),
         (''c'', replicate 4096 0)],
      opfs_open = [(3, ''a''), (4, ''b''), (5, ''c'')], opfs_next = 6,
      mapSAHToName = [(3, ''a''), (4, ''b''), (5, ''c'')],
      mapFilenameToSAH = [([0x2F, 0x61, 0x62], 4)], availableSAH = [5],
      mapIdToFile =
        [(1, \<lparr>file_path = [0x2F, 0x61, 0x62], file_flags = 0x106, file_sah = 0,
               file_lockType = 0\<rparr>),
         (2, \<lparr>file_path = [0x2F, 0x61], file_flags = 0x106, file_sah = 1,
               file_lockType = 0\<rparr>)],
      apBody = replicate 516 0, lastError = None\<rparr>"

text \<open>After "/ab" is opened, the bytes 7, 8, 9 are written at offset 0 of file 1.\<close>

definition ex_written :: state where
  "ex_written =
     \<lparr>opfs_dir =
        [(''a'', [0x2F, 0x61, 0x62] @ replicate 509 0 @ [0, 0, 1, 6] @ replicate 3580 0
                  @ [7, 8, 9]),
         (''b'', replicate 4096 0)],
      opfs_open = [(0, ''a''), (1, ''b'')], opfs_next = 2,
      mapSAHToName = [(0, ''a''), (1, ''b'')],
      mapFilenameToSAH = [([0x2F, 0x61, 0x62], 0)], availableSAH = [1],
      mapIdToFile =
        [(1, \<lparr>file_path = [0x2F, 0x61, 0x62], file_flags = 0x106, file_sah = 0,
               file_lockType = 0\<rparr>)],
      apBody = [0x2F, 0x61, 0x62] @ replicate 509 0 @ [0, 0, 1, 6], lastError = None\<rparr>"

text \<open>One bit of one byte of a file is flipped behind the back of the pool.\<close>

definition flip_bit_at :: "byte list \<Rightarrow> nat \<Rightarrow> nat \<Rightarrow> byte list" where
  "flip_bit_at bs i j = bs[i := (bs ! i) XOR push_bit j 1]"

definition corrupt :: "state \<Rightarrow> fname \<Rightarrow> nat \<Rightarrow> nat \<Rightarrow> state" where
  "corrupt s name i j =
     (case map_of (opfs_dir s) name of
        None \<Rightarrow> s
      | Some c \<Rightarrow> s\<lparr>opfs_dir := AList.update name (flip_bit_at c i j) (opfs_dir s)\<rparr>)"

section \<open>Properties\<close>

subsection \<open>The digest overflows\<close>

text \<open>
  A binary64 value is at most twice as far from zero as the integer it rounds, and every
  finite one is below \<open>2^1024\<close>. So one round of the loop multiplies a finite accumulator
  by at least 4, and after 512 rounds none is finite any more.
\<close>

lemma bitlen_pow: "0 < n \<Longrightarrow> 2 ^ bitlen n \<le> 2 * n"
proof (induction n rule: bitlen.induct)
  case (1 n)
  show ?case
  proof (cases "n div 2 = 0")
    case True
    with 1 have "n = 1" by (simp add: div_eq_0_iff)
    then show ?thesis by (simp add: bitlen.simps[of "Suc 0"] bitlen.simps[of 0])
  next
    case False
    with 1 have ih: "2 ^ bitlen (n div 2) \<le> 2 * (n div 2)" by simp
    have "bitlen n = Suc (bitlen (n div 2))" using 1(2) by (subst bitlen.simps) simp
    then have "2 ^ bitlen n = 2 * 2 ^ bitlen (n div 2)" by simp
    also have "\<dots> \<le> 2 * (2 * (n div 2))" using ih by simp
    also have "\<dots> \<le> 2 * n" by simp
    finally show ?thesis .
  qed
qed

lemma fl_lower:
  assumes "fl n = Finite m"
  shows "n \<le> 2 * m"
proof (cases "n < 2 ^ 53")
  case True
  with assms show ?thesis by (simp add: fl_def)
next
  case False
  define e where "e = bitlen n - 53"
  define q where "q = n div 2 ^ e"
  have npos: "0 < n" using False by (cases "n = 0") auto
  have "(2::nat) ^ e \<le> 2 ^ (bitlen n - 1)" unfolding e_def by (rule power_increasing) auto
  moreover have "bitlen n \<noteq> 0" using npos by (subst bitlen.simps) simp
  then have "(2::nat) * 2 ^ (bitlen n - 1) = 2 ^ bitlen n"
    by (cases "bitlen n") simp_all
  ultimately have "(2::nat) ^ e \<le> n" using bitlen_pow[OF npos] by linarith
  then have q1: "1 \<le> q" unfolding q_def by (simp add: Suc_le_eq div_greater_zero_iff)
  have "n = q * 2 ^ e + n mod 2 ^ e" unfolding q_def by (rule div_mult_mod_eq[symmetric])
  moreover have "n mod 2 ^ e < 2 ^ e" by simp
  moreover have "(2::nat) ^ e \<le> q * 2 ^ e" using q1 by simp
  ultimately have nq: "n \<le> 2 * (q * 2 ^ e)" by linarith
  have "q * 2 ^ e \<le> m"
    using assms False unfolding fl_def Let_def e_def[symmetric] q_def[symmetric]
    by (auto split: if_splits)
  with nq show ?thesis by linarith
qed

lemma fl_upper: "fl n = Finite m \<Longrightarrow> m < 2 ^ 1024"
proof (cases "n < 2 ^ 53")
  case True
  assume "fl n = Finite m"
  with True have "m < 2 ^ 53" by (simp add: fl_def)
  also have "(2::nat) ^ 53 < 2 ^ 1024" by (rule power_strict_increasing) auto
  finally show ?thesis .
next
  case False
  assume "fl n = Finite m"
  with False show ?thesis
    by (auto simp: fl_def Let_def split: if_splits)
qed

lemma digest_step_Infinity: "digest_step Infinity v = Infinity"
  by (simp add: digest_step_def js_mul_def js_add_def)

lemma digest_step_grows:
  assumes "digest_step (Finite a) v = Finite b"
  shows "4 * a \<le> b \<and> b < 2 ^ 1024"
proof -
  from assms obtain m where m: "fl (31 * a) = Finite m"
    and b: "fl (m + unat v * 307) = Finite b"
    by (auto simp: digest_step_def js_mul_def js_add_def split: jsnum.splits)
  from fl_lower[OF m] fl_lower[OF b] have "4 * a \<le> b" by linarith
  with fl_upper[OF b] show ?thesis by simp
qed

lemma foldl_digest_Infinity: "foldl digest_step Infinity bs = Infinity"
  by (induction bs) (simp_all add: digest_step_Infinity)

lemma foldl_digest_grows:
  "foldl digest_step (Finite a) bs = Finite b \<Longrightarrow> 4 ^ length bs * a \<le> b"
proof (induction bs arbitrary: a)
  case Nil
  then show ?case by simp
next
  case (Cons v bs)
  show ?case
  proof (cases "digest_step (Finite a) v")
    case (Finite c)
    with Cons.prems have "foldl digest_step (Finite c) bs = Finite b" by simp
    from Cons.IH[OF this] have ih: "4 ^ length bs * c \<le> b" .
    from digest_step_grows[OF Finite] have "4 * a \<le> c" by simp
    then have "4 ^ length bs * (4 * a) \<le> 4 ^ length bs * c" by (rule mult_le_mono2)
    moreover have "4 ^ length (v # bs) * a = 4 ^ length bs * (4 * a)" by simp
    ultimately show ?thesis using ih by linarith
  next
    case Infinity
    with Cons.prems show ?thesis by (simp add: foldl_digest_Infinity)
  qed
qed

lemma foldl_digest_bound:
  "bs \<noteq> [] \<Longrightarrow> foldl digest_step h bs = Finite b \<Longrightarrow> b < 2 ^ 1024"
proof (induction bs arbitrary: b rule: rev_induct)
  case Nil
  then show ?case by simp
next
  case (snoc v bs)
  then have st: "digest_step (foldl digest_step h bs) v = Finite b" by simp
  then obtain a where "foldl digest_step h bs = Finite a"
    by (cases "foldl digest_step h bs") (simp_all add: digest_step_Infinity)
  with st digest_step_grows show ?case by metis
qed

lemma foldl_digest_overflow:
  assumes "512 \<le> length bs" and "0 < a"
  shows "foldl digest_step (Finite a) bs = Infinity"
proof (cases "foldl digest_step (Finite a) bs")
  case (Finite b)
  from assms have ne: "bs \<noteq> []" by auto
  from foldl_digest_bound[OF ne Finite] have ub: "b < 2 ^ 1024" .
  have "(2::nat) ^ 1024 = 4 ^ 512" by simp
  also have "\<dots> \<le> 4 ^ length bs" using assms(1) by (rule power_increasing) simp
  also have "\<dots> \<le> 4 ^ length bs * a" using assms(2) by simp
  also have "\<dots> \<le> b" by (rule foldl_digest_grows[OF Finite])
  finally show ?thesis using ub by simp
qed simp

lemma computeDigest_header: "512 \<le> length bs \<Longrightarrow> computeDigest bs = (0, 0)"
  by (simp add: computeDigest_def foldl_digest_overflow toUint32_def)

subsection \<open>Bytes, buffers and the header of a slot\<close>

lemma encode_fit_short: "length bs \<le> k \<Longrightarrow> encode_fit k bs = length bs"
  by (cases k) auto

text \<open>
  The decoder keeps the encoding of a string; in such an encoding at most three
  continuation bytes follow one another, so that \<open>encodeInto\<close> writes at least 512 bytes
  of a path that has 512 or more into the 516 bytes of \<open>apBody\<close>.
\<close>

lemma decoder_ascii:
  "list_all (\<lambda>b. b \<le> 0x7F) bs \<Longrightarrow> utf8_decoder [] 0 lo hi bs = bs"
  by (induction bs arbitrary: lo hi) simp_all

lemma textDecoder_ascii:
  "list_all (\<lambda>b. b \<le> 0x7F) bs \<Longrightarrow> textDecoder_decode bs = bs"
  by (cases bs) (auto simp: textDecoder_decode_def decoder_ascii Let_def)

lemma ex1: "textDecoder_decode [47, 97, 98] = [47, 97, 98]"
  by (simp add: textDecoder_ascii)

lemma decoder_cont:
  "n \<noteq> 0 \<Longrightarrow> n \<le> length bs \<Longrightarrow> in_range (hd bs) lo hi \<Longrightarrow>
   list_all is_continuation (take n bs) \<Longrightarrow>
   utf8_decoder p n lo hi bs = p @ take n bs @ utf8_decoder [] 0 0x80 0xBF (drop n bs)"
proof (induction n arbitrary: p lo hi bs)
  case 0
  then show ?case by simp
next
  case (Suc n)
  then obtain c r where bs: "bs = c # r" by (cases bs) auto
  show ?case
  proof (cases "n = 0")
    case True
    then show ?thesis using Suc.prems bs by simp
  next
    case False
    with Suc.prems bs have "n \<le> length r" "list_all is_continuation (take n r)"
      by simp_all
    moreover from this False have "in_range (hd r) 0x80 0xBF"
      by (cases r) (auto simp: is_continuation_def gr0_conv_Suc)
    ultimately have "utf8_decoder (p @ [c]) n 0x80 0xBF r
        = (p @ [c]) @ take n r @ utf8_decoder [] 0 0x80 0xBF (drop n r)"
      using False by (intro Suc.IH) auto
    then show ?thesis using Suc.prems bs False by simp
  qed
qed


lemma decoder_wf: "utf8_wf bs \<Longrightarrow> utf8_decoder [] 0 0x80 0xBF bs = bs"
proof (induction bs rule: utf8_wf.induct)
  case 1
  then show ?case by simp
next
  case (2 b bs)
  show ?case
  proof (cases "b \<le> 0x7F")
    case True
    with 2 show ?thesis by simp
  next
    case False
    define n where "n = bytes_needed b"
    from "2.prems" False have n: "n \<noteq> 0" "n \<le> length bs"
      and r: "in_range (hd bs) (lower_boundary b) (upper_boundary b)"
      and c: "list_all is_continuation (take n bs)" and wf: "utf8_wf (drop n bs)"
      by (simp_all add: n_def Let_def)
    from "2.IH"(2)[OF False n_def wf] 
    have ih: "utf8_decoder [] 0 0x80 0xBF (drop n bs) = drop n bs" .
    have "utf8_decoder [] 0 0x80 0xBF (b # bs)
            = utf8_decoder [b] n (lower_boundary b) (upper_boundary b) bs"
      using False n by (simp add: n_def)
    also have "\<dots> = [b] @ take n bs @ utf8_decoder [] 0 0x80 0xBF (drop n bs)"
      by (rule decoder_cont[OF n r c])
    finally show ?thesis by (simp add: ih)
  qed
qed

lemma textDecoder_wf:
  "utf8_wf bs \<Longrightarrow> take 3 bs \<noteq> [0xEF, 0xBB, 0xBF] \<Longrightarrow> textDecoder_decode bs = bs"
  by (simp add: textDecoder_decode_def decoder_wf)






lemma be_bytes_0: "be_bytes 0 = [0, 0, 0, 0]"
  by (simp add: be_bytes_def)

lemma le_bytes_0: "le_bytes 0 = [0, 0, 0, 0]"
  by (simp add: le_bytes_def)

lemma be_word_be_bytes: "be_word (be_bytes w) = w"
  apply (simp add: be_word_def be_bytes_def)
  apply (rule bit_word_eqI)
  subgoal for n
    by (cases "n < 8"; cases "n < 16"; cases "n < 24") (auto simp: bit_simps)
  done

lemma length_be_bytes: "length (be_bytes w) = 4"
  by (simp add: be_bytes_def)

lemma encodeInto_short:
  "length path < 512 \<Longrightarrow> length buf = 516 \<Longrightarrow>
   encodeInto path buf = (path @ drop (length path) buf, length path)"
  by (simp add: encodeInto_def Let_def encode_fit_short)

lemma fillHeader_short:
  assumes "length path < 512" and "length (apBody s) = 516"
  shows "fillHeader s path flags =
           (Inr (0, 0),
            s\<lparr>apBody := setUint32 (path @ drop (length path) (apBody s)) 512 flags\<rparr>)"
  using assms
  by (simp add: fillHeader_def encodeInto_short Let_def computeDigest_header setUint32_def
      length_be_bytes)

lemma length_setUint32:
  "off + 4 \<le> length buf \<Longrightarrow> length (setUint32 buf off w) = length buf"
  by (simp add: setUint32_def length_be_bytes)

lemma getUint32_setUint32:
  "off + 4 \<le> length buf \<Longrightarrow> getUint32 (setUint32 buf off w) off = w"
  by (simp add: getUint32_def setUint32_def length_be_bytes be_word_be_bytes)

lemma write_header:
  "length body = 516 \<Longrightarrow> length d = 8 \<Longrightarrow>
   write_at (write_at c 0 body) 516 d = body @ d @ drop 524 c"
  by (simp add: write_at_def)

lemma length_digest_bytes: "length (digest_bytes d) = 8"
  by (simp add: digest_bytes_def le_bytes_def)

lemma sah_file_SomeD:
  "sah_file s h = Some c \<Longrightarrow>
   \<exists>nm. map_of (opfs_open s) h = Some nm \<and> map_of (opfs_dir s) nm = Some c"
  by (auto simp: sah_file_def split: option.splits)


lemma update_update: "AList.update k v (AList.update k v' al) = AList.update k v al"
  by (induction al) auto

lemma map_of_update_same: "map_of (AList.update k v al) k = Some v"
  by (simp add: update_conv')

lemma setAssociatedPath_ok:
  assumes op: "map_of (opfs_open s) h = Some nm" and fil: "map_of (opfs_dir s) nm = Some c"
    and len: "length (apBody s) = 516" and short: "length path < 512"
  shows "setAssociatedPath s h path flags =
     (let body = setUint32 (path @ drop (length path) (apBody s)) 512 flags;
          c' = body @ digest_bytes (computeDigest body) @ drop 524 c
      in (Inr (),
          if path \<noteq> [] then
            s\<lparr>apBody := body, opfs_dir := AList.update nm c' (opfs_dir s),
              mapFilenameToSAH := AList.update path h (mapFilenameToSAH s),
              availableSAH := removeAll h (availableSAH s)\<rparr>
          else
            s\<lparr>apBody := body,
              opfs_dir := AList.update nm (truncate_to c' HEADER_OFFSET_DATA) (opfs_dir s),
              availableSAH := set_add (availableSAH s) h\<rparr>))"
proof -
  have lb: "length (setUint32 (path @ drop (length path) (apBody s)) 512 flags) = 516"
    using len short by (simp add: length_setUint32)
  show ?thesis
    using op fil
    by (simp add: setAssociatedPath_def fillHeader_short[OF short len] sah_write_def
        sah_file_def put_file_def sah_flush_def sah_truncate_def computeDigest_header lb
        length_setUint32 len map_of_update_same update_update write_header[OF lb length_digest_bytes] Let_def)
qed




lemma drop_take_truncate_to:
  "k + m \<le> length c \<Longrightarrow> k + m \<le> n \<Longrightarrow>
   take m (drop k (truncate_to c n)) = take m (drop k c)"
  by (simp add: truncate_to_def take_drop min_def)

lemma digest_bytes_0: "digest_bytes (0, 0) = replicate 8 0"
  by (simp add: digest_bytes_def le_bytes_0 numeral_eq_Suc)

lemma digest_words_0: "digest_words (replicate 8 0) = (0, 0)"
  by (simp add: digest_words_def le_word_def numeral_eq_Suc)

lemma findIndex_hd: "P x \<Longrightarrow> findIndex P (x # xs) = 0"
  by simp

lemma sah_file_frame:
  "opfs_open s' = opfs_open s \<Longrightarrow> opfs_dir s' = opfs_dir s \<Longrightarrow> sah_file s' h = sah_file s h"
  by (simp add: sah_file_def cong: option.case_cong)

lemma getUint32_take: "off + 4 \<le> n \<Longrightarrow> getUint32 (take n buf) off = getUint32 buf off"
  by (simp add: getUint32_def take_drop)



subsection \<open>Evaluating the operations on explicit states\<close>

lemma be_bytes_flags_db: "be_bytes 0x106 = [0, 0, 1, 6]"
  by (simp add: be_bytes_def drop_bit_eq_div)

lemma rep_cons: "x # replicate (numeral n) x = replicate (numeral (n + Num.One)) x"
  by (metis Suc_numeral add_One replicate_Suc add.commute numeral_plus_one semiring_norm(5))

lemma rep_app_cons:
  "replicate (numeral n) x @ (x # xs) = replicate (numeral (n + Num.One)) x @ xs"
  by (metis rep_cons replicate_app_Cons_same append_Cons)

lemma rep_app_rep: "replicate m x @ replicate n x = replicate (m + n) x"
  by (simp add: replicate_add)

lemma rep_app_rep2: "replicate m x @ replicate n x @ xs = replicate (m + n) x @ xs"
  by (simp add: replicate_add)

lemmas zeros = rep_cons rep_app_cons rep_app_rep rep_app_rep2

lemmas ex_defs = init_state_def ex_fresh2_def ex_ab_def ex_ab_a_def ex_written_def ex_ab_c_def
  ex_orphan_def
  path_ab_def path_a_def flags_db_def

lemmas sah_defs = sah_file_def put_file_def sah_read_def sah_write_def write_at_def
  sah_truncate_def truncate_to_def sah_getSize_def sah_flush_def sah_close_def
  getFileHandle_create_def createSyncAccessHandle_def removeEntry_def

lemmas header_defs = setAssociatedPath_def fillHeader_def encodeInto_def encode_fit_short
  setUint32_def be_bytes_0 le_bytes_0 be_bytes_flags_db digest_bytes_def computeDigest_header
  set_add_def nextAvailableSAH_def getFileCount_def getCapacity_def storeErr_def Let_def


lemma findIndex_replicate: "0 < n \<Longrightarrow> P x \<Longrightarrow> findIndex P (replicate n x @ xs) = 0"
  by (cases n) simp_all

lemma be_word_zeros: "be_word (replicate n 0 @ bs) = be_word bs"
  by (induction n) (simp_all add: be_word_def)

lemma le_word_zeros: "le_word (replicate n 0) = 0"
  by (induction n) (simp_all add: le_word_def)

lemma be_word_flags_db: "be_word [1, 6] = 0x106"
  by (simp add: be_word_def)

lemma be_word_zeros0: "be_word (replicate n 0) = 0"
  using be_word_zeros[of n "[]"] by (simp add: be_word_def)

lemma be_word_2: "be_word [a, b] = push_bit 8 (ucast a) OR ucast b"
  by (simp add: be_word_def)

lemmas decode_defs = getAssociatedPath_def getUint32_def first_nonzero_def digest_words_def
  be_word_zeros le_word_zeros be_word_flags_db findIndex_replicate subarray0_def
  PERSISTENT_FILE_TYPES_def textDecoder_ascii

lemmas reset_defs = reset_def releaseAccessHandles_def acquireAccessHandles_def acquire_one_def


subsection \<open>The example states are reached from a new pool\<close>

lemma ex_fresh2_reached: "addCapacity init_state [''a'', ''b''] = (Inr 2, ex_fresh2)"
  by (simp add: ex_defs sah_defs header_defs zeros)

lemma ex_ab_reached: "xOpen ex_fresh2 path_ab 1 flags_db = (SQLITE_OK, ex_ab)"
  by (simp add: ex_defs xOpen_def sah_defs header_defs zeros)

lemma ex_ab_a_reached: "xOpen ex_ab path_a 2 flags_db = (SQLITE_OK, ex_ab_a)"
  by (simp add: ex_defs xOpen_def sah_defs header_defs zeros)

lemma ex_ab_c_reached: "addCapacity ex_ab [''c''] = (Inr 3, ex_ab_c)"
  by (simp add: ex_defs sah_defs header_defs zeros)

lemma ex_written_reached: "xWrite ex_ab 1 [7, 8, 9] 3 0 = (Inr SQLITE_OK, ex_written)"
  by (simp add: ex_defs xWrite_def sah_defs header_defs zeros)

lemma run_ex_ab_a:
  "run init_state [AddCapacity [''a'', ''b''], XOpen path_ab 1 flags_db, XOpen path_a 2 flags_db] = ex_ab_a"
  by (simp only: run_def foldl.simps step.simps ex_fresh2_reached ex_ab_reached
      ex_ab_a_reached snd_conv)

lemma first_nonzero_replicate: "first_nonzero (replicate n 0) = False"
  by (cases n) (simp_all add: first_nonzero_def)

lemma findIndex_replicate_all: "0 < n \<Longrightarrow> P x \<Longrightarrow> findIndex P (replicate n x) = 0"
  by (cases n) simp_all

lemma ex_orphan_reached:
  "run init_state [AddCapacity [''a'', ''b'', ''c''], XOpen path_ab 1 flags_db,
                   XOpen path_a 2 flags_db, Reset False] = ex_orphan"
  by (simp add: run_def ex_defs xOpen_def reset_defs decode_defs sah_defs header_defs zeros
      be_word_zeros0 first_nonzero_replicate[unfolded first_nonzero_def]
      findIndex_replicate_all)

lemma pool_inv_ex: "pool_inv ex_fresh2" "pool_inv ex_ab" "pool_inv ex_ab_a"
  by (simp_all add: pool_inv_def pool_gen_def ex_defs)

lemma pool_wf_ex: "pool_wf ex_fresh2" "pool_wf ex_ab" "pool_wf ex_orphan"
  by (simp_all add: pool_wf_def pool_gen_def ex_defs)


subsection \<open>Association lists and the invariant\<close>

lemma update_new: "map_of al k = None \<Longrightarrow> AList.update k v al = al @ [(k, v)]"
  by (induction al) (auto split: if_splits)


lemma setAssociatedPath_lastError:
  "lastError (snd (setAssociatedPath s h path flags)) = lastError s"
  by (auto simp: setAssociatedPath_def fillHeader_def Let_def sah_write_def put_file_def
      sah_flush_def sah_truncate_def
      split: prod.splits sum.splits option.splits if_splits)


lemma delete_keys: "set (map fst (AList.delete k al)) = set (map fst al) - {k}"
  by (induction al) auto

lemma snd_delete_subset: "set (map snd (AList.delete k al)) \<subseteq> set (map snd al)"
  by (induction al) auto

lemma distinct_snd_delete: "distinct (map snd al) \<Longrightarrow> distinct (map snd (AList.delete k al))"
  using snd_delete_subset[of k al] by (induction al) (auto simp: AList.delete_eq)

lemma snd_unique:
  "distinct (map snd al) \<Longrightarrow> (a, v) \<in> set al \<Longrightarrow> (b, v) \<in> set al \<Longrightarrow> a = b"
proof -
  assume "distinct (map snd al)" and a: "(a, v) \<in> set al" and b: "(b, v) \<in> set al"
  then have "inj_on snd (set al)" by (simp add: distinct_map)
  from inj_onD[OF this _ a b] show "a = b" by simp
qed

lemma name_not_in_rest:
  assumes "distinct (map snd al)" and "map_of al k = Some v"
  shows "v \<notin> snd ` set (AList.delete k al)"
proof
  assume "v \<in> snd ` set (AList.delete k al)"
  then obtain k' where k': "(k', v) \<in> set (AList.delete k al)" by force
  then have "k' \<noteq> k" and "(k', v) \<in> set al" by (auto simp: AList.delete_eq)
  moreover from assms(2) have "(k, v) \<in> set al" by (rule map_of_SomeD)
  ultimately show False using snd_unique[OF assms(1)] by blast
qed

lemma pool_gen_weaken: "pool_gen st s \<Longrightarrow> pool_gen False s"
  by (simp add: pool_gen_def)

lemma pool_inv_wf: "pool_inv s \<Longrightarrow> pool_wf s"
  by (simp add: pool_inv_def pool_wf_def pool_gen_weaken)

lemma pool_gen_count_le:
  assumes "pool_gen st s"
  shows "getFileCount s + length (availableSAH s) \<le> getCapacity s"
proof -
  from assms have d1: "distinct (map snd (mapFilenameToSAH s) @ availableSAH s)"
    and d2: "distinct (map fst (mapSAHToName s))"
    and reg: "set (map snd (mapFilenameToSAH s) @ availableSAH s)
                \<subseteq> set (map fst (mapSAHToName s))"
    by (simp_all add: pool_gen_def)
  have "length (map snd (mapFilenameToSAH s) @ availableSAH s)
          = card (set (map snd (mapFilenameToSAH s) @ availableSAH s))"
    using d1 by (rule distinct_card[symmetric])
  also have "\<dots> \<le> card (set (map fst (mapSAHToName s)))"
    using reg by (intro card_mono) simp_all
  also have "\<dots> = length (map fst (mapSAHToName s))" using d2 by (rule distinct_card)
  finally show ?thesis by (simp add: getFileCount_def getCapacity_def)
qed

lemma pool_inv_count:
  assumes "pool_inv s"
  shows "getFileCount s + length (availableSAH s) = getCapacity s"
proof -
  from assms have d1: "distinct (map snd (mapFilenameToSAH s) @ availableSAH s)"
    and d2: "distinct (map fst (mapSAHToName s))"
    and reg: "set (map snd (mapFilenameToSAH s) @ availableSAH s)
                \<subseteq> set (map fst (mapSAHToName s))"
    and cov: "set (map fst (mapSAHToName s))
                \<subseteq> set (map snd (mapFilenameToSAH s) @ availableSAH s)"
    by (simp_all add: pool_inv_def pool_gen_def)
  from reg cov have eq: "set (map snd (mapFilenameToSAH s) @ availableSAH s)
                           = set (map fst (mapSAHToName s))"
    by (rule equalityI)
  have "length (map snd (mapFilenameToSAH s) @ availableSAH s)
          = card (set (map snd (mapFilenameToSAH s) @ availableSAH s))"
    using d1 by (rule distinct_card[symmetric])
  also have "\<dots> = card (set (map fst (mapSAHToName s)))" by (simp only: eq)
  also have "\<dots> = length (map fst (mapSAHToName s))" using d2 by (rule distinct_card)
  finally show ?thesis by (simp add: getFileCount_def getCapacity_def)
qed

lemma slot_files_Cons:
  assumes "distinct (map fst m)" and "map_of m ah = Some nm" and "ah \<notin> set hs"
  shows "set (map snd (filter (\<lambda>(h, n). h \<in> set (ah # hs)) m))
           = insert nm (set (map snd (filter (\<lambda>(h, n). h \<in> set hs) (AList.delete ah m))))"
proof (intro equalityI subsetI)
  fix x assume "x \<in> set (map snd (filter (\<lambda>(h, n). h \<in> set (ah # hs)) m))"
  then obtain h where h: "(h, x) \<in> set m" "h = ah \<or> h \<in> set hs" by auto
  show "x \<in> insert nm (set (map snd (filter (\<lambda>(h, n). h \<in> set hs) (AList.delete ah m))))"
  proof (cases "h = ah")
    case True
    with h(1) assms(1) have "map_of m ah = Some x" by simp
    with assms(2) show ?thesis by simp
  next
    case False
    with h have "(h, x) \<in> set (filter (\<lambda>(h, n). h \<in> set hs) (AList.delete ah m))"
      by (simp add: AList.delete_eq)
    then have "snd (h, x) \<in> snd ` set (filter (\<lambda>(h, n). h \<in> set hs) (AList.delete ah m))"
      by (rule imageI)
    then show ?thesis by simp
  qed
next
  fix x assume x: "x \<in> insert nm (set (map snd (filter (\<lambda>(h, n). h \<in> set hs) (AList.delete ah m))))"
  show "x \<in> set (map snd (filter (\<lambda>(h, n). h \<in> set (ah # hs)) m))"
  proof (cases "x = nm")
    case True
    from assms(2) have "(ah, nm) \<in> set m" by (rule map_of_SomeD)
    then have "(ah, nm) \<in> set (filter (\<lambda>(h, n). h \<in> set (ah # hs)) m)" by simp
    then have "snd (ah, nm) \<in> snd ` set (filter (\<lambda>(h, n). h \<in> set (ah # hs)) m)"
      by (rule imageI)
    with True show ?thesis by simp
  next
    case False
    with x obtain h where "(h, x) \<in> set (filter (\<lambda>(h, n). h \<in> set hs) (AList.delete ah m))"
      by auto
    then have "(h, x) \<in> set (filter (\<lambda>(h, n). h \<in> set (ah # hs)) m)"
      by (simp add: AList.delete_eq)
    then have "snd (h, x) \<in> snd ` set (filter (\<lambda>(h, n). h \<in> set (ah # hs)) m)"
      by (rule imageI)
    then show ?thesis by simp
  qed
qed

lemma delete_absent: "k \<notin> set (map fst al) \<Longrightarrow> AList.delete k al = al"
  by (induction al) auto

lemma length_delete_key:
  "distinct (map fst al) \<Longrightarrow> k \<in> set (map fst al) \<Longrightarrow>
   Suc (length (AList.delete k al)) = length al"
proof (induction al)
  case Nil
  then show ?case by simp
next
  case (Cons a al)
  obtain k' v where a: "a = (k', v)" by (cases a)
  show ?case
  proof (cases "k' = k")
    case True
    with Cons.prems(1) a have "k \<notin> set (map fst al)" by auto
    then have "AList.delete k al = al" by (rule delete_absent)
    with True a show ?thesis by simp
  next
    case False
    with Cons a show ?thesis by auto
  qed
qed

lemma filter_delete:
  "filter (\<lambda>(nm, c). nm \<notin> N) (AList.delete k al) = filter (\<lambda>(nm, c). nm \<notin> insert k N) al"
  by (induction al) auto

lemma reduce_step:
  assumes inv: "pool_gen st s" and av: "availableSAH s = ah # rest"
  shows "\<exists>nm. map_of (mapSAHToName s) ah = Some nm \<and>
           removeEntry (sah_close s ah) nm
             = (Inr (), (sah_close s ah)\<lparr>opfs_dir := AList.delete nm (opfs_dir s)\<rparr>) \<and>
           pool_gen st ((sah_close s ah)\<lparr>opfs_dir := AList.delete nm (opfs_dir s),
                       mapSAHToName := AList.delete ah (mapSAHToName s),
                       availableSAH := rest\<rparr>) \<and>
           (\<forall>h\<in>set (map snd (mapFilenameToSAH s)).
              sah_file ((sah_close s ah)\<lparr>opfs_dir := AList.delete nm (opfs_dir s),
                          mapSAHToName := AList.delete ah (mapSAHToName s),
                          availableSAH := rest\<rparr>) h = sah_file s h) \<and>
           Suc (length (AList.delete nm (opfs_dir s))) = length (opfs_dir s)"
proof -
  from inv have op: "opfs_open s = mapSAHToName s"
    and dd: "distinct (map fst (opfs_dir s))"
    and nx: "list_all (\<lambda>h. h < opfs_next s) (map fst (mapSAHToName s))"
    and ne: "[] \<notin> set (map fst (mapFilenameToSAH s))"
    and dk: "distinct (map fst (mapSAHToName s))"
    and dn: "distinct (map snd (mapSAHToName s))"
    and sub: "set (map snd (mapSAHToName s)) \<subseteq> set (map fst (opfs_dir s))"
    and dp: "distinct (map fst (mapFilenameToSAH s))"
    and dh: "distinct (map snd (mapFilenameToSAH s) @ availableSAH s)"
    and reg: "set (map snd (mapFilenameToSAH s) @ availableSAH s)
                \<subseteq> set (map fst (mapSAHToName s))"
    and cov: "st \<longrightarrow> set (map fst (mapSAHToName s))
                \<subseteq> set (map snd (mapFilenameToSAH s) @ availableSAH s)"
    and len: "length (apBody s) = HEADER_CORPUS_SIZE"
    by (simp_all add: pool_gen_def)
  from reg av have "ah \<in> set (map fst (mapSAHToName s))" by auto
  then obtain nm where nm: "map_of (mapSAHToName s) ah = Some nm"
    by (metis map_of_eq_None_iff not_None_eq set_map)
  from map_of_SomeD[OF nm] have mem: "(ah, nm) \<in> set (mapSAHToName s)" .
  then have "snd (ah, nm) \<in> snd ` set (mapSAHToName s)" by (rule imageI)
  then have nm_key: "nm \<in> set (map fst (opfs_dir s))" using sub by auto
  then have nm_dir: "map_of (opfs_dir s) nm \<noteq> None"
    by (simp add: map_of_eq_None_iff)
  have one: "Suc (length (AList.delete nm (opfs_dir s))) = length (opfs_dir s)"
    using dd nm_key by (rule length_delete_key)
  have nm_free: "nm \<notin> snd ` set (AList.delete ah (mapSAHToName s))"
    by (rule name_not_in_rest[OF dn nm])
  have rm: "removeEntry (sah_close s ah) nm
             = (Inr (), (sah_close s ah)\<lparr>opfs_dir := AList.delete nm (opfs_dir s)\<rparr>)"
    using nm_dir nm_free by (simp add: removeEntry_def sah_close_def op)
  let ?s = "(sah_close s ah)\<lparr>opfs_dir := AList.delete nm (opfs_dir s),
                       mapSAHToName := AList.delete ah (mapSAHToName s),
                       availableSAH := rest\<rparr>"
  have ah_rest: "ah \<notin> set rest" and ah_used: "ah \<notin> set (map snd (mapFilenameToSAH s))"
    using dh av by auto
  have names: "set (map snd (AList.delete ah (mapSAHToName s)))
                 \<subseteq> set (map fst (AList.delete nm (opfs_dir s)))"
  proof
    fix x assume x: "x \<in> set (map snd (AList.delete ah (mapSAHToName s)))"
    with nm_free have "x \<noteq> nm" by auto
    moreover from x snd_delete_subset[of ah "mapSAHToName s"] sub
    have "x \<in> set (map fst (opfs_dir s))" by blast
    ultimately show "x \<in> set (map fst (AList.delete nm (opfs_dir s)))"
      by (simp only: delete_keys) blast
  qed
  have "set (map snd (mapFilenameToSAH s) @ rest)
          = set (map snd (mapFilenameToSAH s) @ availableSAH s) - {ah}"
    using av ah_rest ah_used by auto
  then have keys: "set (map snd (mapFilenameToSAH s) @ rest)
                     \<subseteq> set (map fst (AList.delete ah (mapSAHToName s)))"
    and keys': "st \<longrightarrow> set (map fst (AList.delete ah (mapSAHToName s)))
                     \<subseteq> set (map snd (mapFilenameToSAH s) @ rest)"
    using reg cov by (simp_all only: delete_keys) blast+
  have nx': "list_all (\<lambda>h. h < opfs_next s) (map fst (AList.delete ah (mapSAHToName s)))"
    using nx by (auto simp: list_all_iff delete_keys[simplified])
  have inv': "pool_gen st ?s"
    unfolding pool_gen_def
    using len op dk dn dp dh av names keys keys' dd nx' ne
    by (simp add: sah_close_def distinct_delete distinct_snd_delete)
  have frame: "\<forall>h\<in>set (map snd (mapFilenameToSAH s)). sah_file ?s h = sah_file s h"
  proof
    fix h assume h: "h \<in> set (map snd (mapFilenameToSAH s))"
    with ah_used have ne: "h \<noteq> ah" by auto
    from h reg have "h \<in> set (map fst (mapSAHToName s))" by auto
    then obtain nm' where nm': "map_of (mapSAHToName s) h = Some nm'"
      by (metis map_of_eq_None_iff not_None_eq set_map)
    have "nm' \<noteq> nm"
      using snd_unique[OF dn map_of_SomeD[OF nm'] ] map_of_SomeD[OF nm] ne by auto
    then show "sah_file ?s h = sah_file s h"
      using ne nm' by (simp add: sah_file_def sah_close_def op delete_conv')
  qed
  from nm rm inv' frame one show ?thesis by blast
qed


lemma reduce_loop_pool:
  assumes "pool_gen st s" and "availableSAH s = xs" and "nRm \<le> n"
  shows "\<exists>s'. reduce_loop n xs nRm s = (Inr (nRm + min (n - nRm) (length xs)), s') \<and>
           pool_gen st s' \<and>
           mapFilenameToSAH s' = mapFilenameToSAH s \<and>
           availableSAH s' = drop (min (n - nRm) (length xs)) xs \<and>
           mapSAHToName s'
             = filter (\<lambda>(h, nm). h \<notin> set (take (min (n - nRm) (length xs)) xs)) (mapSAHToName s) \<and>
           (\<forall>h\<in>set (map snd (mapFilenameToSAH s)). sah_file s' h = sah_file s h) \<and>
           opfs_dir s'
             = filter (\<lambda>(nm, c). nm \<notin> set (slot_files s (take (min (n - nRm) (length xs)) xs)))
                 (opfs_dir s) \<and>
           length (opfs_dir s') + min (n - nRm) (length xs) = length (opfs_dir s) \<and>
           getCapacity s' + min (n - nRm) (length xs) = getCapacity s"
  using assms
proof (induction xs arbitrary: s nRm)
  case Nil
  then show ?case by (simp add: slot_files_def)
next
  case (Cons ah rest)
  show ?case
  proof (cases "nRm = n")
    case True
    then show ?thesis using Cons.prems by (simp add: slot_files_def)
  next
    case False
    with Cons.prems have lt: "nRm < n" by simp
    from pool_gen_count_le[OF Cons.prems(1)] Cons.prems(2)
    have cnt: "getFileCount s \<noteq> getCapacity s" by simp
    from reduce_step[OF Cons.prems(1) Cons.prems(2)] obtain nm where
      nm: "map_of (mapSAHToName s) ah = Some nm"
      and rm: "removeEntry (sah_close s ah) nm
                 = (Inr (), (sah_close s ah)\<lparr>opfs_dir := AList.delete nm (opfs_dir s)\<rparr>)"
      and inv1: "pool_gen st ((sah_close s ah)\<lparr>opfs_dir := AList.delete nm (opfs_dir s),
                       mapSAHToName := AList.delete ah (mapSAHToName s),
                       availableSAH := rest\<rparr>)"
      and frame1: "\<forall>h\<in>set (map snd (mapFilenameToSAH s)).
              sah_file ((sah_close s ah)\<lparr>opfs_dir := AList.delete nm (opfs_dir s),
                          mapSAHToName := AList.delete ah (mapSAHToName s),
                          availableSAH := rest\<rparr>) h = sah_file s h"
      and one: "Suc (length (AList.delete nm (opfs_dir s))) = length (opfs_dir s)"
      by blast
    define s1 where "s1 = (sah_close s ah)\<lparr>opfs_dir := AList.delete nm (opfs_dir s),
                       mapSAHToName := AList.delete ah (mapSAHToName s),
                       availableSAH := rest\<rparr>"
    from Cons.prems(1) Cons.prems(2) have "ah \<notin> set rest" by (simp add: pool_gen_def)
    then have ra: "removeAll ah rest = rest" by simp
    have unfold: "reduce_loop n (ah # rest) nRm s = reduce_loop n rest (Suc nRm) s1"
      using False cnt nm rm Cons.prems(2)
      by (simp add: s1_def sah_close_def ra)
    have av1: "availableSAH s1 = rest" by (simp add: s1_def)
    have mf1: "mapFilenameToSAH s1 = mapFilenameToSAH s" by (simp add: s1_def sah_close_def)
    have m1: "mapSAHToName s1 = AList.delete ah (mapSAHToName s)" by (simp add: s1_def)
    have d1: "opfs_dir s1 = AList.delete nm (opfs_dir s)" by (simp add: s1_def)
    from Cons.prems(1) have dk: "distinct (map fst (mapSAHToName s))"
      by (simp add: pool_gen_def)
    from lt have le: "Suc nRm \<le> n" by simp
    from Cons.IH[OF inv1[folded s1_def] av1 le] obtain s' where
      res: "reduce_loop n rest (Suc nRm) s1
              = (Inr (Suc nRm + min (n - Suc nRm) (length rest)), s')"
      and inv': "pool_gen st s'"
      and mf': "mapFilenameToSAH s' = mapFilenameToSAH s1"
      and av': "availableSAH s' = drop (min (n - Suc nRm) (length rest)) rest"
      and m': "mapSAHToName s'
             = filter (\<lambda>(h, nm). h \<notin> set (take (min (n - Suc nRm) (length rest)) rest))
                 (mapSAHToName s1)"
      and frame': "\<forall>h\<in>set (map snd (mapFilenameToSAH s1)). sah_file s' h = sah_file s1 h"
      and dir': "opfs_dir s'
             = filter (\<lambda>(nm, c). nm \<notin> set (slot_files s1 (take (min (n - Suc nRm) (length rest)) rest)))
                 (opfs_dir s1)"
      and cnt': "length (opfs_dir s') + min (n - Suc nRm) (length rest) = length (opfs_dir s1)"
      and cap': "getCapacity s' + min (n - Suc nRm) (length rest) = getCapacity s1"
      by blast
    have k: "min (n - nRm) (length (ah # rest)) = Suc (min (n - Suc nRm) (length rest))"
      using lt by (simp add: min_def) arith
    have c1: "reduce_loop n (ah # rest) nRm s
               = (Inr (nRm + min (n - nRm) (length (ah # rest))), s')"
      by (simp only: unfold res k) simp
    have c2: "availableSAH s' = drop (min (n - nRm) (length (ah # rest))) (ah # rest)"
      by (simp only: k av') simp
    have c3: "mapSAHToName s'
             = filter (\<lambda>(h, nm). h \<notin> set (take (min (n - nRm) (length (ah # rest))) (ah # rest)))
                 (mapSAHToName s)"
      by (simp only: k m' m1) (auto simp: AList.delete_eq intro!: filter_cong)
    have c4: "\<forall>h\<in>set (map snd (mapFilenameToSAH s)). sah_file s' h = sah_file s h"
      using frame' frame1 unfolding mf1 s1_def[symmetric] by auto
    have nin: "ah \<notin> set (take (min (n - Suc nRm) (length rest)) rest)"
      using \<open>ah \<notin> set rest\<close> by (auto dest: in_set_takeD)
    have tk: "take (min (n - nRm) (length (ah # rest))) (ah # rest)
                = ah # take (min (n - Suc nRm) (length rest)) rest"
      by (simp only: k take_Suc_Cons)
    have names: "set (slot_files s (ah # take (min (n - Suc nRm) (length rest)) rest))
                   = insert nm (set (slot_files s1 (take (min (n - Suc nRm) (length rest)) rest)))"
      unfolding slot_files_def m1 by (rule slot_files_Cons[OF dk nm nin])
    have c5: "opfs_dir s'
             = filter (\<lambda>(nm, c). nm \<notin> set (slot_files s
                                           (take (min (n - nRm) (length (ah # rest))) (ah # rest))))
                 (opfs_dir s)"
      by (simp only: dir' d1 filter_delete tk names)
    have c6: "length (opfs_dir s') + min (n - nRm) (length (ah # rest)) = length (opfs_dir s)"
      using cnt' one unfolding k d1 by arith
    have c0: "mapFilenameToSAH s' = mapFilenameToSAH s" using mf' mf1 by simp
    have "ah \<in> set (map fst (mapSAHToName s))"
      using map_of_SomeD[OF nm] by force
    from length_delete_key[OF dk this]
    have c7: "getCapacity s' + min (n - nRm) (length (ah # rest)) = getCapacity s"
      using cap' unfolding k by (simp add: getCapacity_def m1)
    show ?thesis by (intro exI[of _ s'] conjI c1 inv' c0 c2 c3 c4 c5 c6 c7)
  qed
qed


subsection \<open>The calls keep the invariant\<close>

text \<open>
  Every call of a sequence keeps \<open>pool_gen\<close>; with \<open>strict\<close>, every call other than
  \<open>reset(false)\<close>, which rebuilds the maps from the headers of the files.
  \<open>reset(true)\<close> clears every file and ends with all slots available.
\<close>

lemma encode_fit_le: "encode_fit k bs \<le> k \<and> encode_fit k bs \<le> length bs"
  by (induction k) auto

lemma length_encodeInto: "length (fst (encodeInto path buf)) = length buf"
  using encode_fit_le[of "length buf" path] by (simp add: encodeInto_def Let_def)

lemma update_keys_same:
  "k \<in> set (map fst al) \<Longrightarrow> map fst (AList.update k v al) = map fst al"
  by (simp add: update_keys)

lemma setAssociatedPath_summary:
  assumes op: "map_of (opfs_open s) h = Some nm" and fil: "map_of (opfs_dir s) nm = Some c"
    and len: "length (apBody s) = HEADER_CORPUS_SIZE"
  shows "\<exists>r s'. setAssociatedPath s h path flags = (r, s') \<and>
           length (apBody s') = HEADER_CORPUS_SIZE \<and>
           map fst (opfs_dir s') = map fst (opfs_dir s) \<and>
           opfs_open s' = opfs_open s \<and> opfs_next s' = opfs_next s \<and>
           mapSAHToName s' = mapSAHToName s \<and> mapIdToFile s' = mapIdToFile s \<and>
           lastError s' = lastError s \<and>
           (case r of
              Inl e \<Rightarrow> mapFilenameToSAH s' = mapFilenameToSAH s \<and>
                       availableSAH s' = availableSAH s
            | Inr u \<Rightarrow>
                (if path \<noteq> [] then
                   mapFilenameToSAH s' = AList.update path h (mapFilenameToSAH s) \<and>
                   availableSAH s' = removeAll h (availableSAH s)
                 else mapFilenameToSAH s' = mapFilenameToSAH s \<and>
                      availableSAH s' = set_add (availableSAH s) h))"
proof -
  define b0 where "b0 = fst (encodeInto path (apBody s))"
  have lb0: "length b0 = 516" using len by (simp add: b0_def length_encodeInto)
  have key: "nm \<in> set (map fst (opfs_dir s))"
    using map_of_SomeD[OF fil] by force
  show ?thesis
  proof (cases "HEADER_MAX_PATH_SIZE \<le> snd (encodeInto path (apBody s))")
    case True
    then have "setAssociatedPath s h path flags = (Inl PathTooLong, s\<lparr>apBody := b0\<rparr>)"
      by (simp add: setAssociatedPath_def fillHeader_def Let_def b0_def)
    then show ?thesis using lb0 by simp
  next
    case False
    define body where "body = setUint32 b0 512 flags"
    have lb: "length body = 516" using lb0 by (simp add: body_def length_setUint32)
    have fh: "fillHeader s path flags = (Inr (computeDigest body), s\<lparr>apBody := body\<rparr>)"
      using False by (simp add: fillHeader_def Let_def b0_def body_def)
    define c' where "c' = write_at (write_at c 0 body) 516 (digest_bytes (computeDigest body))"
    show ?thesis
      using op fil lb key
      by (simp add: setAssociatedPath_def fh sah_write_def sah_file_def put_file_def
          sah_flush_def sah_truncate_def map_of_update_same update_update update_keys_same
          Let_def)
  qed
qed

lemma pool_gen_cong:
  assumes "length (apBody s') = length (apBody s)"
    and "map fst (opfs_dir s') = map fst (opfs_dir s)"
    and "opfs_open s' = opfs_open s" and "opfs_next s' = opfs_next s"
    and "mapSAHToName s' = mapSAHToName s"
    and "mapFilenameToSAH s' = mapFilenameToSAH s"
    and "availableSAH s' = availableSAH s"
  shows "pool_gen st s' = pool_gen st s"
  using assms by (simp add: pool_gen_def)


lemma pool_gen_live:
  assumes "pool_gen st s" and "h \<in> set (map fst (mapSAHToName s))"
  shows "\<exists>nm c. map_of (opfs_open s) h = Some nm \<and> map_of (opfs_dir s) nm = Some c"
proof -
  from assms(1) have op: "opfs_open s = mapSAHToName s"
    and sub: "set (map snd (mapSAHToName s)) \<subseteq> set (map fst (opfs_dir s))"
    by (simp_all add: pool_gen_def)
  from assms(2) obtain nm where nm: "map_of (mapSAHToName s) h = Some nm"
    by (metis map_of_eq_None_iff not_None_eq set_map)
  from map_of_SomeD[OF nm] have "snd (h, nm) \<in> snd ` set (mapSAHToName s)" by (rule imageI)
  with sub have "nm \<in> set (map fst (opfs_dir s))" by auto
  then obtain c where "map_of (opfs_dir s) nm = Some c"
    by (metis map_of_eq_None_iff not_None_eq set_map)
  with nm op show ?thesis by simp
qed

lemma pool_gen_used_registered:
  "pool_gen st s \<Longrightarrow> map_of (mapFilenameToSAH s) path = Some h \<Longrightarrow>
   h \<in> set (map fst (mapSAHToName s)) \<and> h \<notin> set (availableSAH s) \<and> path \<noteq> []"
proof -
  assume inv: "pool_gen st s" and m: "map_of (mapFilenameToSAH s) path = Some h"
  from map_of_SomeD[OF m] have mem: "(path, h) \<in> set (mapFilenameToSAH s)" .
  then have "snd (path, h) \<in> snd ` set (mapFilenameToSAH s)"
    and "fst (path, h) \<in> fst ` set (mapFilenameToSAH s)" by (rule imageI)+
  then have h: "h \<in> set (map snd (mapFilenameToSAH s))"
    and p: "path \<in> set (map fst (mapFilenameToSAH s))" by simp_all
  from inv have d: "distinct (map snd (mapFilenameToSAH s) @ availableSAH s)"
    and reg: "set (map snd (mapFilenameToSAH s) @ availableSAH s)
                \<subseteq> set (map fst (mapSAHToName s))"
    and cov: "st \<longrightarrow> set (map fst (mapSAHToName s))
                \<subseteq> set (map snd (mapFilenameToSAH s) @ availableSAH s)"
    and n: "[] \<notin> set (map fst (mapFilenameToSAH s))"
    by (simp_all add: pool_gen_def)
  from p n have "path \<noteq> []" by blast
  moreover from h reg have "h \<in> set (map fst (mapSAHToName s))" by auto
  moreover from h d have "h \<notin> set (availableSAH s)" by auto
  ultimately show ?thesis by simp
qed

lemma pool_gen_available_registered:
  "pool_gen st s \<Longrightarrow> h \<in> set (availableSAH s) \<Longrightarrow>
   h \<in> set (map fst (mapSAHToName s)) \<and> h \<notin> set (map snd (mapFilenameToSAH s))"
  by (auto simp: pool_gen_def)

lemma pool_gen_set_available:
  assumes inv: "pool_gen st s" and av: "h \<in> set (availableSAH s)"
    and un: "map_of (mapFilenameToSAH s) path = None"
  shows "pool_gen st (snd (setAssociatedPath s h path flags))"
proof -
  from pool_gen_available_registered[OF inv av]
  have reg: "h \<in> set (map fst (mapSAHToName s))"
    and nu: "h \<notin> set (map snd (mapFilenameToSAH s))" by simp_all
  from pool_gen_live[OF inv reg] obtain nm c where
    op: "map_of (opfs_open s) h = Some nm" and fil: "map_of (opfs_dir s) nm = Some c" by blast
  from inv have len: "length (apBody s) = HEADER_CORPUS_SIZE" by (simp add: pool_gen_def)
  from setAssociatedPath_summary[OF op fil len, of path flags] obtain r s' where
    res: "setAssociatedPath s h path flags = (r, s')"
    and f: "length (apBody s') = HEADER_CORPUS_SIZE" "map fst (opfs_dir s') = map fst (opfs_dir s)"
      "opfs_open s' = opfs_open s" "opfs_next s' = opfs_next s"
      "mapSAHToName s' = mapSAHToName s"
    and eff: "case r of
              Inl e \<Rightarrow> mapFilenameToSAH s' = mapFilenameToSAH s \<and>
                       availableSAH s' = availableSAH s
            | Inr u \<Rightarrow>
                (if path \<noteq> [] then
                   mapFilenameToSAH s' = AList.update path h (mapFilenameToSAH s) \<and>
                   availableSAH s' = removeAll h (availableSAH s)
                 else mapFilenameToSAH s' = mapFilenameToSAH s \<and>
                      availableSAH s' = set_add (availableSAH s) h)"
    by blast
  have same: "mapFilenameToSAH s' = mapFilenameToSAH s \<Longrightarrow> availableSAH s' = availableSAH s
              \<Longrightarrow> pool_gen st s'"
    using pool_gen_cong[of s' s] f len inv by simp
  have "pool_gen st s'"
  proof (cases r)
    case (Inl e)
    with eff same show ?thesis by simp
  next
    case (Inr u)
    show ?thesis
    proof (cases "path = []")
      case True
      with Inr eff av same show ?thesis by (simp add: set_add_def)
    next
      case False
      with Inr eff have mf: "mapFilenameToSAH s' = mapFilenameToSAH s @ [(path, h)]"
        and av': "availableSAH s' = removeAll h (availableSAH s)"
        by (simp_all add: update_new[OF un])
      from un have pk: "path \<notin> set (map fst (mapFilenameToSAH s))"
        by (simp add: map_of_eq_None_iff)
      have "set (map snd (mapFilenameToSAH s) @ [h] @ removeAll h (availableSAH s))
              = set (map snd (mapFilenameToSAH s) @ availableSAH s)"
        using av by auto
      then show ?thesis
        using inv f False pk nu
        unfolding pool_gen_def mf av'
        by (simp add: distinct_removeAll)
    qed
  qed
  with res show ?thesis by simp
qed


lemma pool_gen_set_mapped:
  assumes inv: "pool_gen st s" and m: "map_of (mapFilenameToSAH s) path = Some h"
  shows "pool_gen st (snd (setAssociatedPath s h path flags))"
proof -
  from pool_gen_used_registered[OF inv m]
  have reg: "h \<in> set (map fst (mapSAHToName s))" and na: "h \<notin> set (availableSAH s)"
    and ne: "path \<noteq> []" by simp_all
  from pool_gen_live[OF inv reg] obtain nm c where
    op: "map_of (opfs_open s) h = Some nm" and fil: "map_of (opfs_dir s) nm = Some c" by blast
  from inv have len: "length (apBody s) = HEADER_CORPUS_SIZE" by (simp add: pool_gen_def)
  from setAssociatedPath_summary[OF op fil len, of path flags] obtain r s' where
    res: "setAssociatedPath s h path flags = (r, s')"
    and f: "length (apBody s') = HEADER_CORPUS_SIZE" "map fst (opfs_dir s') = map fst (opfs_dir s)"
      "opfs_open s' = opfs_open s" "opfs_next s' = opfs_next s"
      "mapSAHToName s' = mapSAHToName s"
    and eff: "case r of
              Inl e \<Rightarrow> mapFilenameToSAH s' = mapFilenameToSAH s \<and>
                       availableSAH s' = availableSAH s
            | Inr u \<Rightarrow>
                (if path \<noteq> [] then
                   mapFilenameToSAH s' = AList.update path h (mapFilenameToSAH s) \<and>
                   availableSAH s' = removeAll h (availableSAH s)
                 else mapFilenameToSAH s' = mapFilenameToSAH s \<and>
                      availableSAH s' = set_add (availableSAH s) h)"
    by blast
  have "mapFilenameToSAH s' = mapFilenameToSAH s \<and> availableSAH s' = availableSAH s"
    using eff ne na by (cases r) (simp_all add: update_triv[OF m])
  then have "pool_gen st s'"
    using pool_gen_cong[of s' s] f len inv by simp
  with res show ?thesis by simp
qed

lemma delete_snd:
  assumes "distinct (map fst al)" and "distinct (map snd al)" and "map_of al k = Some v"
  shows "set (map snd (AList.delete k al)) = set (map snd al) - {v}"
proof (intro equalityI subsetI)
  fix x assume "x \<in> set (map snd (AList.delete k al))"
  with name_not_in_rest[OF assms(2,3)] snd_delete_subset[of k al]
  show "x \<in> set (map snd al) - {v}" by auto
next
  fix x assume "x \<in> set (map snd al) - {v}"
  then obtain k' where k': "(k', x) \<in> set al" and ne: "x \<noteq> v" by auto
  from k' assms(1) have "map_of al k' = Some x" by simp
  with assms(3) ne have "k' \<noteq> k" by auto
  with k' have "(k', x) \<in> set (AList.delete k al)" by (simp add: AList.delete_eq)
  then have "snd (k', x) \<in> snd ` set (AList.delete k al)" by (rule imageI)
  then show "x \<in> set (map snd (AList.delete k al))" by simp
qed

lemma pool_gen_deletePath:
  assumes inv: "pool_gen st s"
  shows "pool_gen st (snd (deletePath s path))"
proof (cases "map_of (mapFilenameToSAH s) path")
  case None
  then show ?thesis using inv by (simp add: deletePath_def)
next
  case (Some h)
  from pool_gen_used_registered[OF inv Some]
  have reg: "h \<in> set (map fst (mapSAHToName s))" and na: "h \<notin> set (availableSAH s)" by simp_all
  from pool_gen_live[OF inv reg] obtain nm c where
    op: "map_of (opfs_open s) h = Some nm" and fil: "map_of (opfs_dir s) nm = Some c" by blast
  from inv have len: "length (apBody s) = HEADER_CORPUS_SIZE"
    and dp: "distinct (map fst (mapFilenameToSAH s))"
    and dh: "distinct (map snd (mapFilenameToSAH s) @ availableSAH s)"
    and reg: "set (map snd (mapFilenameToSAH s) @ availableSAH s)
                \<subseteq> set (map fst (mapSAHToName s))"
    and cov: "st \<longrightarrow> set (map fst (mapSAHToName s))
                \<subseteq> set (map snd (mapFilenameToSAH s) @ availableSAH s)"
    and ne: "[] \<notin> set (map fst (mapFilenameToSAH s))"
    by (simp_all add: pool_gen_def)
  define s0 where "s0 = s\<lparr>mapFilenameToSAH := AList.delete path (mapFilenameToSAH s)\<rparr>"
  define body where "body = setUint32 (apBody s) 512 0"
  define c' where "c' = truncate_to (body @ digest_bytes (computeDigest body) @ drop 524 c)
                          HEADER_OFFSET_DATA"
  define s' where "s' = s0\<lparr>apBody := body, opfs_dir := AList.update nm c' (opfs_dir s0),
                           availableSAH := set_add (availableSAH s0) h\<rparr>"
  have "setAssociatedPath s0 h [] 0 = (Inr (), s')"
    using setAssociatedPath_ok[of s0 h nm c "[]" 0] op fil len
    by (simp add: s0_def s'_def body_def c'_def Let_def)
  then have del: "deletePath s path = (Inr True, s')"
    using Some by (simp add: deletePath_def s0_def)
  have key: "nm \<in> set (map fst (opfs_dir s))" using map_of_SomeD[OF fil] by force
  have hs: "set (map snd (AList.delete path (mapFilenameToSAH s)))
              = set (map snd (mapFilenameToSAH s)) - {h}"
    using dp dh Some by (intro delete_snd) simp_all
  have hm: "h \<in> set (map snd (mapFilenameToSAH s))"
    using map_of_SomeD[OF Some] by force
  have "set (map snd (AList.delete path (mapFilenameToSAH s)) @ availableSAH s @ [h])
          = set (map snd (mapFilenameToSAH s) @ availableSAH s)"
    using hs hm by auto
  moreover have "distinct (map snd (AList.delete path (mapFilenameToSAH s)) @ availableSAH s @ [h])"
    using dh hs na distinct_snd_delete[of "mapFilenameToSAH s" path] by auto
  moreover have "[] \<notin> set (map fst (AList.delete path (mapFilenameToSAH s)))"
    using ne delete_keys[of path "mapFilenameToSAH s"] by auto
  ultimately have "pool_gen st s'"
    using inv key na dp
    unfolding pool_gen_def s'_def s0_def
    by (simp add: set_add_def body_def length_setUint32 update_keys_same distinct_delete)
  with del show ?thesis by simp
qed


lemma pool_gen_new_slot:
  assumes inv: "pool_gen st s" and nm: "name \<in> set (map fst (opfs_dir s))"
    and free: "name \<notin> snd ` set (opfs_open s)"
    and t: "opfs_open t = opfs_open s @ [(opfs_next s, name)]"
      "opfs_next t = Suc (opfs_next s)"
      "mapSAHToName t = AList.update (opfs_next s) name (mapSAHToName s)"
      "map fst (opfs_dir t) = map fst (opfs_dir s)"
      "length (apBody t) = HEADER_CORPUS_SIZE"
      "mapFilenameToSAH t = mapFilenameToSAH s" "availableSAH t = availableSAH s"
  shows "fst (setAssociatedPath t (opfs_next s) [] 0) = Inr () \<and>
         pool_gen st (snd (setAssociatedPath t (opfs_next s) [] 0))"
proof -
  define ah where "ah = opfs_next s"
  from inv have op: "opfs_open s = mapSAHToName s"
    and dd: "distinct (map fst (opfs_dir s))"
    and nx: "list_all (\<lambda>h. h < opfs_next s) (map fst (mapSAHToName s))"
    and dk: "distinct (map fst (mapSAHToName s))"
    and dn: "distinct (map snd (mapSAHToName s))"
    and sub: "set (map snd (mapSAHToName s)) \<subseteq> set (map fst (opfs_dir s))"
    and dp: "distinct (map fst (mapFilenameToSAH s))"
    and ne: "[] \<notin> set (map fst (mapFilenameToSAH s))"
    and dh: "distinct (map snd (mapFilenameToSAH s) @ availableSAH s)"
    and reg: "set (map snd (mapFilenameToSAH s) @ availableSAH s)
                \<subseteq> set (map fst (mapSAHToName s))"
    and cov: "st \<longrightarrow> set (map fst (mapSAHToName s))
                \<subseteq> set (map snd (mapFilenameToSAH s) @ availableSAH s)"
    by (simp_all add: pool_gen_def)
  from nx have fresh: "ah \<notin> set (map fst (mapSAHToName s))"
    by (auto simp: list_all_iff ah_def)
  then have none: "map_of (mapSAHToName s) ah = None" by (simp add: map_of_eq_None_iff)
  have m': "mapSAHToName t = mapSAHToName s @ [(ah, name)]"
    using t(3) by (simp add: ah_def[symmetric] update_new[OF none])
  have o': "opfs_open t = mapSAHToName s @ [(ah, name)]"
    using t(1) by (simp add: ah_def op)
  have opt: "map_of (opfs_open t) ah = Some name"
    using none by (simp add: o' map_add_def)
  from nm t(4) obtain c where fil: "map_of (opfs_dir t) name = Some c"
    by (metis map_of_eq_None_iff not_None_eq set_map)
  define body where "body = setUint32 (apBody t) 512 0"
  define c' where "c' = truncate_to (body @ digest_bytes (computeDigest body) @ drop 524 c)
                          HEADER_OFFSET_DATA"
  define t' where "t' = t\<lparr>apBody := body, opfs_dir := AList.update name c' (opfs_dir t),
                           availableSAH := set_add (availableSAH t) ah\<rparr>"
  have set: "setAssociatedPath t ah [] 0 = (Inr (), t')"
    using setAssociatedPath_ok[OF opt fil t(5), of "[]" 0]
    by (simp add: t'_def body_def c'_def Let_def)
  from fresh reg have na: "ah \<notin> set (availableSAH s)" by auto
  have names: "name \<notin> set (map snd (mapSAHToName s))" using free by (simp add: op)
  have nx': "list_all (\<lambda>h. h < Suc ah) (map fst (mapSAHToName s))"
    using nx by (auto simp: list_all_iff ah_def)
  have key: "name \<in> set (map fst (opfs_dir t))" using nm t(4) by simp
  have "set (map snd (mapFilenameToSAH s) @ availableSAH s @ [ah])
          \<subseteq> set (map fst (mapSAHToName s @ [(ah, name)]))"
    using reg by auto
  moreover have "st \<longrightarrow> set (map fst (mapSAHToName s @ [(ah, name)]))
          \<subseteq> set (map snd (mapFilenameToSAH s) @ availableSAH s @ [ah])"
    using cov by auto
  moreover have "distinct (map snd (mapFilenameToSAH s) @ availableSAH s @ [ah])"
    using dh fresh reg by auto
  ultimately have "pool_gen st t'"
    using dd dk dn sub dp ne fresh names nx' nm na t(2,4,5,6,7) key
    unfolding pool_gen_def t'_def
    by (simp add: m' o' set_add_def body_def length_setUint32 update_keys_same ah_def[symmetric])
  with set show ?thesis by (simp add: ah_def)
qed

lemma pool_gen_getFileHandle_create:
  assumes "pool_gen st s"
  shows "pool_gen st (getFileHandle_create s name) \<and>
         name \<in> set (map fst (opfs_dir (getFileHandle_create s name)))"
proof (cases "map_of (opfs_dir s) name")
  case None
  then have "name \<notin> set (map fst (opfs_dir s))" by (simp add: map_of_eq_None_iff)
  with assms None show ?thesis
    by (auto simp: getFileHandle_create_def pool_gen_def)
next
  case (Some c)
  from map_of_SomeD[OF Some] have "name \<in> set (map fst (opfs_dir s))" by force
  with assms Some show ?thesis by (simp add: getFileHandle_create_def)
qed

lemma pool_gen_addCapacity: "pool_gen st s \<Longrightarrow> pool_gen st (snd (addCapacity s names))"
proof (induction names arbitrary: s)
  case Nil
  then show ?case by simp
next
  case (Cons name names)
  define sa where "sa = getFileHandle_create s name"
  from pool_gen_getFileHandle_create[OF Cons.prems, of name]
  have inva: "pool_gen st sa" and key: "name \<in> set (map fst (opfs_dir sa))"
    by (simp_all add: sa_def)
  show ?case
  proof (cases "name \<in> snd ` set (opfs_open sa)")
    case True
    then show ?thesis using inva
      by (simp add: createSyncAccessHandle_def sa_def[symmetric])
  next
    case False
    from key have ex: "map_of (opfs_dir sa) name \<noteq> None" by (simp add: map_of_eq_None_iff)
    define sb where "sb = sa\<lparr>opfs_open := opfs_open sa @ [(opfs_next sa, name)],
                             opfs_next := Suc (opfs_next sa)\<rparr>"
    define t where "t = sb\<lparr>mapSAHToName := AList.update (opfs_next sa) name (mapSAHToName sb)\<rparr>"
    have cr: "createSyncAccessHandle sa name = (Inr (opfs_next sa), sb)"
      using False ex by (simp add: createSyncAccessHandle_def sb_def)
    from inva have len: "length (apBody sa) = HEADER_CORPUS_SIZE" by (simp add: pool_gen_def)
    have "fst (setAssociatedPath t (opfs_next sa) [] 0) = Inr () \<and>
          pool_gen st (snd (setAssociatedPath t (opfs_next sa) [] 0))"
      using len by (intro pool_gen_new_slot[OF inva key False]) (simp_all add: t_def sb_def)
    then obtain s2 where set: "setAssociatedPath t (opfs_next sa) [] 0 = (Inr (), s2)"
      and inv2: "pool_gen st s2"
      by (cases "setAssociatedPath t (opfs_next sa) [] 0") auto
    show ?thesis
      using cr set Cons.IH[OF inv2]
      by (simp add: sa_def[symmetric] t_def[symmetric])
  qed
qed


lemma pool_gen_fillHeader:
  "pool_gen st s \<Longrightarrow> pool_gen st (snd (fillHeader s path flags))"
proof -
  assume inv: "pool_gen st s"
  then have len: "length (apBody s) = HEADER_CORPUS_SIZE" by (simp add: pool_gen_def)
  have "pool_gen st (snd (fillHeader s path flags)) = pool_gen st s"
    using len
    by (intro pool_gen_cong)
      (simp_all add: fillHeader_def Let_def length_encodeInto length_setUint32)
  with inv show ?thesis by simp
qed

lemma pool_gen_mapIdToFile: "pool_gen st (s\<lparr>mapIdToFile := m\<rparr>) = pool_gen st s"
  by (simp add: pool_gen_def)

lemma pool_gen_lastError: "pool_gen st (s\<lparr>lastError := e\<rparr>) = pool_gen st s"
  by (simp add: pool_gen_def)

lemma pool_gen_xOpen:
  assumes inv: "pool_gen st s"
  shows "pool_gen st (snd (xOpen s path pFile flags))"
proof (cases "map_of (mapFilenameToSAH s) path")
  case (Some h)
  then show ?thesis using inv by (simp add: xOpen_def pool_gen_mapIdToFile)
next
  case None
  show ?thesis
  proof (cases "flags AND SQLITE_OPEN_CREATE \<noteq> 0 \<and> getFileCount s < getCapacity s")
    case False
    then show ?thesis
      using None inv by (auto simp: xOpen_def storeErr_def pool_gen_lastError)
  next
    case True
    show ?thesis
    proof (cases "availableSAH s")
      case Nil
      obtain r s1 where fh: "fillHeader s path flags = (r, s1)" by force
      with pool_gen_fillHeader[OF inv, of path flags] have "pool_gen st s1" by simp
      then show ?thesis
        using None True Nil fh
        by (cases r) (simp_all add: xOpen_def nextAvailableSAH_def storeErr_def
            pool_gen_lastError)
    next
      case (Cons h rest)
      then have av: "h \<in> set (availableSAH s)" by simp
      obtain r s1 where set: "setAssociatedPath s h path flags = (r, s1)" by force
      with pool_gen_set_available[OF inv av None, of flags] have "pool_gen st s1" by simp
      then show ?thesis
        using None True Cons set
        by (cases r) (simp_all add: xOpen_def nextAvailableSAH_def storeErr_def
            pool_gen_lastError pool_gen_mapIdToFile)
    qed
  qed
qed

lemma pool_gen_put_file:
  assumes inv: "pool_gen st s" and live: "sah_file s h = Some c"
  shows "pool_gen st (put_file s h c')"
proof -
  from sah_file_SomeD[OF live] obtain nm where
    op: "map_of (opfs_open s) h = Some nm" and fil: "map_of (opfs_dir s) nm = Some c" by blast
  from map_of_SomeD[OF fil] have key: "nm \<in> set (map fst (opfs_dir s))" by force
  have "pool_gen st (put_file s h c') = pool_gen st s"
    using op key by (intro pool_gen_cong) (simp_all add: put_file_def update_keys_same)
  with inv show ?thesis by simp
qed

lemma put_file_frame:
  "mapFilenameToSAH (put_file s h c) = mapFilenameToSAH s"
  "availableSAH (put_file s h c) = availableSAH s"
  "mapIdToFile (put_file s h c) = mapIdToFile s"
  by (simp_all add: put_file_def split: option.splits)

lemma pool_gen_importDb:
  assumes inv: "pool_gen st s"
  shows "pool_gen st (snd (importDb s name bytes))"
proof (cases "length bytes < 512 \<or> length bytes mod 512 \<noteq> 0 \<or>
              \<not> header_matches sqlite_header bytes")
  case True
  then show ?thesis using inv by (auto simp: importDb_def Let_def)
next
  case False
  show ?thesis
  proof (cases "map_of (mapFilenameToSAH s) name")
    case (Some h)
    show ?thesis
    proof (cases "sah_file s h")
      case None
      then show ?thesis using False Some inv by (simp add: importDb_def Let_def sah_write_def)
    next
      case (Some c)
      define s1 where "s1 = put_file s h (write_at c HEADER_OFFSET_DATA bytes)"
      have inv1: "pool_gen st s1" unfolding s1_def by (rule pool_gen_put_file[OF inv Some])
      have m1: "map_of (mapFilenameToSAH s1) name = Some h"
        using \<open>map_of (mapFilenameToSAH s) name = Some h\<close>
        by (simp add: s1_def put_file_frame)
      from pool_gen_set_mapped[OF inv1 m1]
      show ?thesis
        using False Some \<open>map_of (mapFilenameToSAH s) name = Some h\<close>
        by (simp add: importDb_def Let_def sah_write_def s1_def)
    qed
  next
    case None
    show ?thesis
    proof (cases "availableSAH s")
      case Nil
      then show ?thesis
        using False None inv by (simp add: importDb_def Let_def nextAvailableSAH_def)
    next
      case (Cons h rest)
      show ?thesis
      proof (cases "sah_file s h")
        case None
        then show ?thesis
          using False \<open>map_of (mapFilenameToSAH s) name = None\<close> Cons inv
          by (simp add: importDb_def Let_def sah_write_def nextAvailableSAH_def)
      next
        case (Some c)
        define s1 where "s1 = put_file s h (write_at c HEADER_OFFSET_DATA bytes)"
        have inv1: "pool_gen st s1" unfolding s1_def by (rule pool_gen_put_file[OF inv Some])
        have m1: "map_of (mapFilenameToSAH s1) name = None"
          and a1: "h \<in> set (availableSAH s1)"
          using \<open>map_of (mapFilenameToSAH s) name = None\<close> Cons
          by (simp_all add: s1_def put_file_frame)
        from pool_gen_set_available[OF inv1 a1 m1]
        show ?thesis
          using False Some \<open>map_of (mapFilenameToSAH s) name = None\<close> Cons
          by (simp add: importDb_def Let_def sah_write_def s1_def nextAvailableSAH_def)
      qed
    qed
  qed
qed

lemma pool_gen_xDelete: "pool_gen st s \<Longrightarrow> pool_gen st (snd (xDelete s path))"
proof -
  assume inv: "pool_gen st s"
  then have "pool_gen st (storeErr s None)" by (simp add: storeErr_def pool_gen_lastError)
  from pool_gen_deletePath[OF this, of path] show ?thesis
    by (cases "deletePath (storeErr s None) path")
      (auto simp: xDelete_def storeErr_def pool_gen_lastError split: sum.splits)
qed

lemma pool_gen_xClose: "pool_gen st s \<Longrightarrow> pool_gen st (snd (xClose s pFile))"
proof -
  assume inv: "pool_gen st s"
  define s0 where "s0 = storeErr s None"
  have inv0: "pool_gen st s0" using inv by (simp add: s0_def storeErr_def pool_gen_lastError)
  have unf: "xClose s pFile =
     (case map_of (mapIdToFile s0) pFile of
           None \<Rightarrow> (SQLITE_OK, s0)
         | Some f \<Rightarrow>
             (case sah_flush s0 (file_sah f) of
                None \<Rightarrow> (SQLITE_IOERR, storeErr s0 (Some InvalidStateError))
              | Some s1 \<Rightarrow>
                  (let s2 = s1\<lparr>mapIdToFile := AList.delete pFile (mapIdToFile s1)\<rparr>
                   in if file_flags f AND SQLITE_OPEN_DELETEONCLOSE \<noteq> 0 then
                        (case deletePath s2 (file_path f) of
                           (Inl e, s3) \<Rightarrow> (SQLITE_IOERR, storeErr s3 (Some e))
                         | (Inr b, s3) \<Rightarrow> (SQLITE_OK, s3))
                      else (SQLITE_OK, s2))))"
    unfolding xClose_def s0_def Let_def by (rule refl)
  show ?thesis
  proof (cases "map_of (mapIdToFile s0) pFile")
    case None
    then show ?thesis using inv0 by (simp add: unf)
  next
    case (Some f)
    note mf = Some
    show ?thesis
    proof (cases "sah_file s0 (file_sah f)")
      case None
      then show ?thesis
        using mf inv0
        by (simp add: unf sah_flush_def storeErr_def pool_gen_lastError)
    next
      case (Some c)
      define s2 where "s2 = s0\<lparr>mapIdToFile := AList.delete pFile (mapIdToFile s0)\<rparr>"
      have inv2: "pool_gen st s2" using inv0 by (simp add: s2_def pool_gen_mapIdToFile)
      obtain r s3 where dp: "deletePath s2 (file_path f) = (r, s3)" by force
      with pool_gen_deletePath[OF inv2, of "file_path f"] have inv3: "pool_gen st s3" by simp
      have "xClose s pFile =
           (if file_flags f AND SQLITE_OPEN_DELETEONCLOSE \<noteq> 0 then
              (case r of Inl e \<Rightarrow> (SQLITE_IOERR, storeErr s3 (Some e))
                       | Inr b \<Rightarrow> (SQLITE_OK, s3))
            else (SQLITE_OK, s2))"
        using mf Some dp[unfolded s2_def]
        by (simp add: unf sah_flush_def Let_def s2_def split: sum.splits)
      then show ?thesis
        using inv2 inv3
        by (cases r) (simp_all add: storeErr_def pool_gen_lastError)
    qed
  qed
qed

lemma pool_gen_xWrite: "pool_gen st s \<Longrightarrow> pool_gen st (snd (xWrite s pFile src n off))"
proof -
  assume inv: "pool_gen st s"
  then have inv0: "pool_gen st (storeErr s None)" by (simp add: storeErr_def pool_gen_lastError)
  show ?thesis
  proof (cases "map_of (mapIdToFile (storeErr s None)) pFile")
    case None
    then show ?thesis using inv0 by (simp add: xWrite_def Let_def)
  next
    case (Some f)
    show ?thesis
    proof (cases "sah_file (storeErr s None) (file_sah f)")
      case None
      then show ?thesis
        using Some inv0
        by (simp add: xWrite_def Let_def sah_write_def storeErr_def pool_gen_lastError)
    next
      case (Some c)
      from pool_gen_put_file[OF inv0 Some]
      show ?thesis
        using Some \<open>map_of (mapIdToFile (storeErr s None)) pFile = Some f\<close>
        by (simp add: xWrite_def Let_def sah_write_def)
    qed
  qed
qed

lemma pool_gen_reduceCapacity:
  assumes "pool_gen st s"
  shows "pool_gen st (snd (reduceCapacity s n))"
proof -
  from reduce_loop_pool[OF assms refl, of 0 n] obtain s' where
    "reduceCapacity s n = (Inr (min n (length (availableSAH s))), s')" and "pool_gen st s'"
    by (auto simp: reduceCapacity_def)
  then show ?thesis by simp
qed


lemma foldl_delete_all:
  "set (map fst l) \<subseteq> set hs \<Longrightarrow> foldl (\<lambda>l h. AList.delete h l) l hs = []"
proof (induction hs arbitrary: l)
  case Nil
  then show ?case by simp
next
  case (Cons h hs)
  have "set (map fst (AList.delete h l)) \<subseteq> set hs"
    using Cons.prems delete_keys[of h l] by auto
  from Cons.IH[OF this] show ?case by simp
qed

lemma foldl_sah_close:
  "foldl sah_close s hs = s\<lparr>opfs_open := foldl (\<lambda>l h. AList.delete h l) (opfs_open s) hs\<rparr>"
  by (induction hs arbitrary: s) (simp_all add: sah_close_def)

lemma pool_gen_release:
  assumes "pool_gen st s"
  shows "pool_gen st' (releaseAccessHandles s)"
    and "opfs_open (releaseAccessHandles s) = []"
    and "opfs_dir (releaseAccessHandles s) = opfs_dir s"
proof -
  from assms have op: "opfs_open s = mapSAHToName s"
    and len: "length (apBody s) = HEADER_CORPUS_SIZE"
    and dd: "distinct (map fst (opfs_dir s))"
    by (simp_all add: pool_gen_def)
  have e: "foldl (\<lambda>l h. AList.delete h l) (opfs_open s) (map fst (mapSAHToName s)) = []"
    by (rule foldl_delete_all) (simp add: op)
  show "opfs_open (releaseAccessHandles s) = []"
    by (simp add: releaseAccessHandles_def foldl_sah_close e)
  show "opfs_dir (releaseAccessHandles s) = opfs_dir s"
    by (simp add: releaseAccessHandles_def foldl_sah_close)
  show "pool_gen st' (releaseAccessHandles s)"
    using len dd by (simp add: releaseAccessHandles_def foldl_sah_close e pool_gen_def)
qed

lemma acquire_one_clear:
  assumes inv: "pool_gen st s" and nm: "name \<in> set (map fst (opfs_dir s))"
    and free: "name \<notin> snd ` set (opfs_open s)"
  shows "\<exists>s'. acquire_one True s name = (Inr (), s') \<and> pool_gen st s' \<and>
              map fst (opfs_dir s') = map fst (opfs_dir s) \<and>
              opfs_open s' = opfs_open s @ [(opfs_next s, name)]"
proof -
  define ah where "ah = opfs_next s"
  from inv have op: "opfs_open s = mapSAHToName s"
    and nx: "list_all (\<lambda>h. h < opfs_next s) (map fst (mapSAHToName s))"
    and len: "length (apBody s) = HEADER_CORPUS_SIZE"
    by (simp_all add: pool_gen_def)
  from nx have fresh: "ah \<notin> set (map fst (opfs_open s))"
    by (auto simp: list_all_iff ah_def op)
  then have none: "map_of (opfs_open s) ah = None" by (simp add: map_of_eq_None_iff)
  from nm obtain c where fil: "map_of (opfs_dir s) name = Some c"
    by (metis map_of_eq_None_iff not_None_eq set_map)
  define s1 where "s1 = s\<lparr>opfs_open := opfs_open s @ [(ah, name)], opfs_next := Suc ah\<rparr>"
  define s2 where "s2 = s1\<lparr>mapSAHToName := AList.update ah name (mapSAHToName s1)\<rparr>"
  define s3 where "s3 = s2\<lparr>opfs_dir := AList.update name (truncate_to c HEADER_OFFSET_DATA)
                                           (opfs_dir s2)\<rparr>"
  have cr: "createSyncAccessHandle s name = (Inr ah, s1)"
    using free fil by (simp add: createSyncAccessHandle_def s1_def ah_def)
  have o2: "map_of (opfs_open s2) ah = Some name"
    using none by (simp add: s2_def s1_def map_add_def)
  have tr: "sah_truncate s2 ah HEADER_OFFSET_DATA = Some s3"
    using o2 fil by (simp add: sah_truncate_def sah_file_def put_file_def s3_def s2_def s1_def)
  have ao: "acquire_one True s name = setAssociatedPath s3 ah [] 0"
    by (simp add: acquire_one_def cr s2_def[symmetric] tr)
  have k3: "map fst (opfs_dir s3) = map fst (opfs_dir s)"
    using nm by (simp add: s3_def s2_def s1_def update_keys_same)
  have new: "fst (setAssociatedPath s3 (opfs_next s) [] 0) = Inr () \<and>
             pool_gen st (snd (setAssociatedPath s3 (opfs_next s) [] 0))"
    using len k3
    by (intro pool_gen_new_slot[OF inv nm free])
      (simp_all add: s3_def s2_def s1_def ah_def)
  have o3: "map_of (opfs_open s3) ah = Some name" using o2 by (simp add: s3_def)
  have f3: "map_of (opfs_dir s3) name = Some (truncate_to c HEADER_OFFSET_DATA)"
    by (simp add: s3_def map_of_update_same)
  have l3: "length (apBody s3) = HEADER_CORPUS_SIZE"
    using len by (simp add: s3_def s2_def s1_def)
  from setAssociatedPath_summary[OF o3 f3 l3, of "[]" 0]
  obtain r s' where set: "setAssociatedPath s3 ah [] 0 = (r, s')"
    and kd: "map fst (opfs_dir s') = map fst (opfs_dir s3)"
    and oo: "opfs_open s' = opfs_open s3"
    by blast
  from new set have "r = Inr ()" "pool_gen st s'" by (simp_all add: ah_def)
  then show ?thesis
    using ao set kd oo k3 by (simp add: s3_def s2_def s1_def ah_def)
qed

lemma acquire_all_clear:
  assumes "pool_gen st s" and "distinct names"
    and "set names \<subseteq> set (map fst (opfs_dir s))"
    and "set names \<inter> snd ` set (opfs_open s) = {}"
  shows "fst (acquire_all True names s) = Inr () \<and> pool_gen st (snd (acquire_all True names s))"
  using assms
proof (induction names arbitrary: s)
  case Nil
  then show ?case by simp
next
  case (Cons name names)
  have nm: "name \<in> set (map fst (opfs_dir s))" and free: "name \<notin> snd ` set (opfs_open s)"
    using Cons.prems(3,4) by auto
  from acquire_one_clear[OF Cons.prems(1) nm free]
  obtain s' where ao: "acquire_one True s name = (Inr (), s')" and inv': "pool_gen st s'"
    and kd: "map fst (opfs_dir s') = map fst (opfs_dir s)"
    and oo: "opfs_open s' = opfs_open s @ [(opfs_next s, name)]"
    by blast
  have d: "distinct names" using Cons.prems(2) by simp
  have sub: "set names \<subseteq> set (map fst (opfs_dir s'))"
    using Cons.prems(3) by (simp add: kd)
  have dis: "set names \<inter> snd ` set (opfs_open s') = {}"
    using Cons.prems(2,4) by (auto simp: oo)
  from Cons.IH[OF inv' d sub dis] show ?case by (simp add: ao)
qed

lemma pool_gen_strict: "pool_gen True s \<Longrightarrow> pool_gen st s"
  by (simp add: pool_gen_def)

lemma pool_gen_reset_clear:
  assumes "pool_gen st s"
  shows "fst (reset s True) = Inr () \<and> pool_gen st' (snd (reset s True))"
proof -
  have r1: "pool_gen True (releaseAccessHandles s)" by (rule pool_gen_release(1)[OF assms])
  note rel = pool_gen_release(2,3)[OF assms]
  from r1 have "distinct (map fst (opfs_dir (releaseAccessHandles s)))"
    by (simp add: pool_gen_def)
  then have "fst (acquire_all True (map fst (opfs_dir (releaseAccessHandles s)))
                    (releaseAccessHandles s)) = Inr () \<and>
             pool_gen True (snd (acquire_all True (map fst (opfs_dir (releaseAccessHandles s)))
                                   (releaseAccessHandles s)))"
    by (intro acquire_all_clear[OF r1]) (simp_all add: rel(1))
  then show ?thesis
    unfolding reset_def acquireAccessHandles_def by (simp add: pool_gen_strict)
qed

text \<open>
  \<open>reset(false)\<close> keeps the weaker invariant: a handle is registered before its header
  is read, and then becomes the handle of a used slot or available, or, when
  \<open>getAssociatedPath\<close> throws, is released with all others.
\<close>

lemma getAssociatedPath_summary:
  assumes op: "map_of (opfs_open s) h = Some nm" and key: "nm \<in> set (map fst (opfs_dir s))"
  shows "\<exists>r s'. getAssociatedPath s h = (r, s') \<and>
           length (apBody s') = length (apBody s) \<and>
           map fst (opfs_dir s') = map fst (opfs_dir s) \<and>
           opfs_open s' = opfs_open s \<and> opfs_next s' = opfs_next s \<and>
           mapSAHToName s' = mapSAHToName s \<and> mapFilenameToSAH s' = mapFilenameToSAH s \<and>
           availableSAH s' = availableSAH s"
proof -
  from key obtain c where fil: "map_of (opfs_dir s) nm = Some c"
    by (metis map_of_eq_None_iff not_None_eq set_map)
  define body where "body = take (length (apBody s)) c
                              @ drop (length (take (length (apBody s)) c)) (apBody s)"
  define s1 where "s1 = s\<lparr>apBody := body\<rparr>"
  have lb: "length body = length (apBody s)" by (simp add: body_def)
  have rd: "sah_read s h (apBody s) 0 = Some (body, length (take (length (apBody s)) c))"
    using op fil by (simp add: sah_read_def sah_file_def body_def Let_def)
  have live1: "sah_file s1 h = Some c" using op fil by (simp add: sah_file_def s1_def)
  have tr: "sah_truncate s1 h HEADER_OFFSET_DATA
              = Some (s1\<lparr>opfs_dir := AList.update nm (truncate_to c HEADER_OFFSET_DATA)
                                       (opfs_dir s1)\<rparr>)"
    using op live1 by (simp add: sah_truncate_def put_file_def s1_def)
  obtain fd k where rd2: "sah_read s1 h (replicate HEADER_DIGEST_SIZE 0) HEADER_OFFSET_DIGEST
                            = Some (fd, k)"
    using live1 by (simp add: sah_read_def Let_def)
  have "getAssociatedPath s h = (Inl ReferenceError, s1) \<or>
        getAssociatedPath s h
          = (Inr [], s1\<lparr>opfs_dir := AList.update nm (truncate_to c HEADER_OFFSET_DATA)
                                       (opfs_dir s1)\<rparr>) \<or>
        (\<exists>p. getAssociatedPath s h = (Inr p, s1))"
    unfolding getAssociatedPath_def rd by (simp add: Let_def s1_def[symmetric] rd2 tr)
  moreover have "map fst (AList.update nm (truncate_to c HEADER_OFFSET_DATA) (opfs_dir s))
                   = map fst (opfs_dir s)"
    using key by (rule update_keys_same)
  ultimately show ?thesis
    using lb by (auto simp: s1_def)
qed

lemma update_snd_subset: "set (map snd (AList.update k v al)) \<subseteq> insert v (set (map snd al))"
  by (induction al) auto

lemma distinct_update_snd:
  "distinct (map snd al @ xs) \<Longrightarrow> v \<notin> set (map snd al) \<Longrightarrow> v \<notin> set xs \<Longrightarrow>
   distinct (map snd (AList.update k v al) @ xs)"
proof (induction al)
  case Nil
  then show ?case by simp
next
  case (Cons a al)
  obtain k' v' where a: "a = (k', v')" by (cases a)
  show ?case
  proof (cases "k' = k")
    case True
    with Cons.prems a show ?thesis by auto
  next
    case False
    from Cons.prems a have ih: "distinct (map snd (AList.update k v al) @ xs)"
      by (intro Cons.IH) auto
    from Cons.prems a have "v' \<noteq> v" "v' \<notin> set (map snd al)" "v' \<notin> set xs" by auto
    with update_snd_subset[of k v al] have "v' \<notin> set (map snd (AList.update k v al))"
      by auto
    with ih \<open>v' \<notin> set xs\<close> False a show ?thesis by simp
  qed
qed

lemma pool_gen_map_slot:
  assumes inv: "pool_gen False s" and reg: "h \<in> set (map fst (mapSAHToName s))"
    and new: "h \<notin> set (map snd (mapFilenameToSAH s))" "h \<notin> set (availableSAH s)"
    and ne: "path \<noteq> []"
  shows "pool_gen False (s\<lparr>mapFilenameToSAH := AList.update path h (mapFilenameToSAH s)\<rparr>)"
proof -
  from inv have dh: "distinct (map snd (mapFilenameToSAH s) @ availableSAH s)"
    and sub: "set (map snd (mapFilenameToSAH s) @ availableSAH s)
                \<subseteq> set (map fst (mapSAHToName s))"
    and dp: "distinct (map fst (mapFilenameToSAH s))"
    and nn: "[] \<notin> set (map fst (mapFilenameToSAH s))"
    by (simp_all add: pool_gen_def)
  have d': "distinct (map snd (AList.update path h (mapFilenameToSAH s)) @ availableSAH s)"
    using dh new by (rule distinct_update_snd)
  have s': "set (map snd (AList.update path h (mapFilenameToSAH s)) @ availableSAH s)
              \<subseteq> set (map fst (mapSAHToName s))"
    using update_snd_subset[of path h "mapFilenameToSAH s"] sub reg by auto
  have k': "[] \<notin> set (map fst (AList.update path h (mapFilenameToSAH s)))"
    using nn ne by (auto simp: update_keys split: if_splits)
  show ?thesis
    using inv d' s' k' dp unfolding pool_gen_def by (simp add: distinct_update)
qed

lemma pool_gen_add_available:
  assumes inv: "pool_gen False s" and reg: "h \<in> set (map fst (mapSAHToName s))"
    and new: "h \<notin> set (map snd (mapFilenameToSAH s))"
  shows "pool_gen False (s\<lparr>availableSAH := set_add (availableSAH s) h\<rparr>)"
  using assms unfolding pool_gen_def by (auto simp: set_add_def)

lemma acquire_one_scan:
  assumes inv: "pool_gen st s" and nm: "name \<in> set (map fst (opfs_dir s))"
    and free: "name \<notin> snd ` set (opfs_open s)"
  shows "\<exists>r s'. acquire_one False s name = (r, s') \<and> pool_gen False s' \<and>
              map fst (opfs_dir s') = map fst (opfs_dir s) \<and>
              opfs_open s' = opfs_open s @ [(opfs_next s, name)]"
proof -
  define ah where "ah = opfs_next s"
  from inv have op: "opfs_open s = mapSAHToName s"
    and nx: "list_all (\<lambda>h. h < opfs_next s) (map fst (mapSAHToName s))"
    and reg: "set (map snd (mapFilenameToSAH s) @ availableSAH s)
                \<subseteq> set (map fst (mapSAHToName s))"
    by (simp_all add: pool_gen_def)
  from nx have fresh: "ah \<notin> set (map fst (mapSAHToName s))"
    by (auto simp: list_all_iff ah_def)
  then have none: "map_of (mapSAHToName s) ah = None" by (simp add: map_of_eq_None_iff)
  from fresh reg have nu: "ah \<notin> set (map snd (mapFilenameToSAH s))"
    and na: "ah \<notin> set (availableSAH s)" by auto
  from nm obtain c where fil: "map_of (opfs_dir s) name = Some c"
    by (metis map_of_eq_None_iff not_None_eq set_map)
  define s2 where "s2 = s\<lparr>opfs_open := opfs_open s @ [(ah, name)], opfs_next := Suc ah,
                          mapSAHToName := mapSAHToName s @ [(ah, name)]\<rparr>"
  have cr: "createSyncAccessHandle s name
              = (Inr ah, s\<lparr>opfs_open := opfs_open s @ [(ah, name)], opfs_next := Suc ah\<rparr>)"
    using free fil by (simp add: createSyncAccessHandle_def ah_def)
  have names: "name \<notin> set (map snd (mapSAHToName s))" using free by (simp add: op)
  have nx': "list_all (\<lambda>h. h < Suc ah) (map fst (mapSAHToName s))"
    using nx by (auto simp: list_all_iff ah_def)
  have inv2: "pool_gen False s2"
    using inv fresh names nx' nm reg unfolding pool_gen_def s2_def by auto
  have o2: "map_of (opfs_open s2) ah = Some name"
    using none by (simp add: s2_def op map_add_def)
  have k2: "name \<in> set (map fst (opfs_dir s2))" using nm by (simp add: s2_def)
  from getAssociatedPath_summary[OF o2 k2] obtain r s3 where
    get: "getAssociatedPath s2 ah = (r, s3)"
    and f: "length (apBody s3) = length (apBody s2)"
      "map fst (opfs_dir s3) = map fst (opfs_dir s2)"
      "opfs_open s3 = opfs_open s2" "opfs_next s3 = opfs_next s2"
      "mapSAHToName s3 = mapSAHToName s2" "mapFilenameToSAH s3 = mapFilenameToSAH s2"
      "availableSAH s3 = availableSAH s2"
    by blast
  have inv3: "pool_gen False s3"
    using pool_gen_cong[of s3 s2 False] f inv2 by simp
  have reg3: "ah \<in> set (map fst (mapSAHToName s3))" by (simp add: f s2_def)
  have nu3: "ah \<notin> set (map snd (mapFilenameToSAH s3))" using nu by (simp add: f s2_def)
  have na3: "ah \<notin> set (availableSAH s3)" using na by (simp add: f s2_def)
  have ao: "acquire_one False s name =
              (case r of Inl e \<Rightarrow> (Inl e, s3)
               | Inr path \<Rightarrow>
                   if path \<noteq> [] then
                     (Inr (), s3\<lparr>mapFilenameToSAH := AList.update path ah (mapFilenameToSAH s3)\<rparr>)
                   else (Inr (), s3\<lparr>availableSAH := set_add (availableSAH s3) ah\<rparr>))"
    using get by (simp add: acquire_one_def cr update_new[OF none] s2_def split: sum.splits)
  have d3: "map fst (opfs_dir s3) = map fst (opfs_dir s)" by (simp add: f s2_def)
  have o3: "opfs_open s3 = opfs_open s @ [(opfs_next s, name)]"
    by (simp add: f s2_def ah_def)
  show ?thesis
  proof (cases r)
    case (Inl e)
    with ao inv3 d3 o3 show ?thesis by simp
  next
    case (Inr path)
    show ?thesis
    proof (cases "path = []")
      case True
      with ao Inr pool_gen_add_available[OF inv3 reg3 nu3] d3 o3 show ?thesis by simp
    next
      case False
      with ao Inr pool_gen_map_slot[OF inv3 reg3 nu3 na3 False] d3 o3 show ?thesis by simp
    qed
  qed
qed

lemma acquire_all_scan:
  assumes "pool_gen st s" and "distinct names"
    and "set names \<subseteq> set (map fst (opfs_dir s))"
    and "set names \<inter> snd ` set (opfs_open s) = {}"
  shows "pool_gen False (snd (acquire_all False names s))"
  using assms
proof (induction names arbitrary: s st)
  case Nil
  then show ?case by (simp add: pool_gen_weaken)
next
  case (Cons name names)
  have nm: "name \<in> set (map fst (opfs_dir s))" and free: "name \<notin> snd ` set (opfs_open s)"
    using Cons.prems(3,4) by auto
  from acquire_one_scan[OF Cons.prems(1) nm free]
  obtain r s' where ao: "acquire_one False s name = (r, s')" and inv': "pool_gen False s'"
    and kd: "map fst (opfs_dir s') = map fst (opfs_dir s)"
    and oo: "opfs_open s' = opfs_open s @ [(opfs_next s, name)]"
    by blast
  have d: "distinct names" using Cons.prems(2) by simp
  show ?case
  proof (cases r)
    case (Inl e)
    define s'' where "s'' = releaseAccessHandles (storeErr s' (Some e))"
    from inv' have st: "pool_gen False (storeErr s' (Some e))"
      by (simp add: storeErr_def pool_gen_lastError)
    note rel = pool_gen_release(2,3)[OF st]
    have inv'': "pool_gen False s''" unfolding s''_def by (rule pool_gen_release(1)[OF st])
    have od: "opfs_dir s'' = opfs_dir (storeErr s' (Some e))"
      unfolding s''_def by (rule rel(2))
    have oo'': "opfs_open s'' = []" unfolding s''_def by (rule rel(1))
    have sub: "set names \<subseteq> set (map fst (opfs_dir s''))"
      using Cons.prems(3) by (simp add: od storeErr_def kd)
    have dis: "set names \<inter> snd ` set (opfs_open s'') = {}"
      by (simp add: oo'')
    from Cons.IH[OF inv'' d sub dis] show ?thesis
      using ao Inl by (simp add: s''_def)
  next
    case (Inr u)
    have sub: "set names \<subseteq> set (map fst (opfs_dir s'))"
      using Cons.prems(3) by (simp add: kd)
    have dis: "set names \<inter> snd ` set (opfs_open s') = {}"
      using Cons.prems(2,4) by (auto simp: oo)
    from Cons.IH[OF inv' d sub dis] show ?thesis
      using ao Inr by simp
  qed
qed

lemma pool_gen_reset_scan:
  assumes "pool_gen st s"
  shows "pool_gen False (snd (reset s False))"
proof -
  have r1: "pool_gen False (releaseAccessHandles s)" by (rule pool_gen_release(1)[OF assms])
  note rel = pool_gen_release(2,3)[OF assms]
  from r1 have "distinct (map fst (opfs_dir (releaseAccessHandles s)))"
    by (simp add: pool_gen_def)
  then show ?thesis
    unfolding reset_def acquireAccessHandles_def
    by (intro acquire_all_scan[OF r1]) (simp_all add: rel(1))
qed

lemma pool_gen_init: "pool_gen st init_state"
  by (simp add: pool_gen_def init_state_def)

lemma pool_gen_step:
  assumes "pool_gen st s" and "st \<longrightarrow> c \<noteq> Reset False"
  shows "pool_gen st (step s c)"
proof (cases c)
  case (Reset clearFiles)
  show ?thesis
  proof (cases clearFiles)
    case True
    with Reset pool_gen_reset_clear[OF assms(1), of st] show ?thesis by simp
  next
    case False
    with Reset assms(2) have "\<not> st" by simp
    with Reset False pool_gen_reset_scan[OF assms(1)] show ?thesis by simp
  qed
qed (simp_all add: assms(1) pool_gen_addCapacity pool_gen_reduceCapacity pool_gen_xOpen
      pool_gen_xClose pool_gen_xDelete pool_gen_deletePath unlink_def pool_gen_importDb
      pool_gen_xWrite)

lemma pool_gen_run:
  assumes "pool_gen st s" and "st \<longrightarrow> Reset False \<notin> set calls"
  shows "pool_gen st (run s calls)"
  using assms unfolding run_def
proof (induction calls arbitrary: s)
  case Nil
  then show ?case by simp
next
  case (Cons c calls)
  from Cons.prems have "pool_gen st (step s c)" by (intro pool_gen_step) auto
  from Cons.IH[OF this] Cons.prems(2) show ?case by simp
qed

text \<open>
  So every sequence of calls on a new pool leaves a state with \<open>pool_wf\<close>, and every
  sequence in which \<open>reset(false)\<close> does not occur a state with \<open>pool_inv\<close>, in which
  the used and the available slots add up to the capacity.
\<close>

lemma pool_wf_run: "pool_wf s \<Longrightarrow> pool_wf (run s calls)"
  unfolding pool_wf_def by (rule pool_gen_run) simp_all

lemma pool_wf_reachable: "pool_wf (run init_state calls)"
  by (rule pool_wf_run) (simp add: pool_wf_def pool_gen_init)

lemma pool_inv_run:
  assumes "pool_inv s" and "Reset False \<notin> set calls"
  shows "pool_inv (run s calls)"
  using assms unfolding pool_inv_def by (intro pool_gen_run) simp_all

lemma pool_inv_init: "pool_inv init_state"
  by (simp add: pool_inv_def pool_gen_init)

lemma apBody_length_reachable: "length (apBody (run init_state calls)) = HEADER_CORPUS_SIZE"
  using pool_wf_reachable[of calls] by (simp add: pool_wf_def pool_gen_def)

lemma available_open_reachable:
  assumes "h \<in> set (availableSAH (run init_state calls))"
  shows "\<exists>c. sah_file (run init_state calls) h = Some c"
proof -
  have g: "pool_gen False (run init_state calls)"
    using pool_wf_reachable[of calls] by (simp add: pool_wf_def)
  from pool_gen_available_registered[OF g assms]
  have "h \<in> set (map fst (mapSAHToName (run init_state calls)))" by simp
  from pool_gen_live[OF g this] show ?thesis by (auto simp: sah_file_def)
qed

lemma count_without_reset_false:
  assumes "Reset False \<notin> set calls"
  shows "getFileCount (run init_state calls) + length (availableSAH (run init_state calls))
           = getCapacity (run init_state calls)"
  using pool_inv_count[OF pool_inv_run[OF pool_inv_init assms]] .

subsection \<open>What a digest modulo \<open>2^32\<close> would detect\<close>

text \<open>
  The two accumulators of \<open>digest_mod32\<close> are those of \<open>computeDigest\<close> with every step
  reduced modulo \<open>2^32\<close>. Both 31 and 307 are odd, hence invertible modulo \<open>2^32\<close>, so a
  step is injective in the accumulator and in the byte, and a change of one byte of the
  input changes both accumulators.
\<close>

lemma inv31: "(0xbdef7bdf :: u32) * 31 = 1"
  by simp

lemma inv307: "(0xc74be1fb :: u32) * 307 = 1"
  by simp

lemma cancel31: "(31 :: u32) * x = 31 * y \<Longrightarrow> x = y"
proof -
  assume "(31 :: u32) * x = 31 * y"
  then have "0xbdef7bdf * (31 * x) = 0xbdef7bdf * (31 * y)" by simp
  then have "(0xbdef7bdf * 31) * x = (0xbdef7bdf * 31) * y" by (simp only: mult.assoc)
  then show "x = y" by (simp only: inv31 mult_1)
qed

lemma cancel307: "x * (307 :: u32) = y * 307 \<Longrightarrow> x = y"
proof -
  assume "x * (307 :: u32) = y * 307"
  then have "(x * 307) * 0xc74be1fb = (y * 307) * 0xc74be1fb" by simp
  then have "x * (0xc74be1fb * 307) = y * (0xc74be1fb * 307)"
    by (simp only: mult.assoc mult.commute)
  then show "x = y" by (simp only: inv307 mult_1_right)
qed

lemma ucast_byte_inj: "(ucast (v :: byte) :: u32) = ucast v' \<Longrightarrow> v = v'"
proof -
  assume "(ucast v :: u32) = ucast v'"
  then have "(ucast (ucast v :: u32) :: byte) = ucast (ucast v' :: u32)" by simp
  moreover have "\<And>w :: byte. (ucast (ucast w :: u32) :: byte) = w"
    by (rule bit_word_eqI) (auto simp: bit_simps)
  ultimately show "v = v'" by simp
qed

lemma step32_inj_h: "digest_step32 h v = digest_step32 h' v \<Longrightarrow> h = h'"
  by (auto simp: digest_step32_def dest: cancel31)

lemma step32_inj_v: "digest_step32 h v = digest_step32 h v' \<Longrightarrow> v = v'"
  by (auto simp: digest_step32_def dest!: cancel307 ucast_byte_inj)

lemma foldl32_inj: "foldl digest_step32 h bs = foldl digest_step32 h' bs \<Longrightarrow> h = h'"
  by (induction bs arbitrary: h h') (auto dest: step32_inj_h)

lemma foldl32_detects_change:
  assumes "i < length bs" and "v \<noteq> bs ! i"
  shows "foldl digest_step32 h (bs[i := v]) \<noteq> foldl digest_step32 h bs"
proof
  assume eq: "foldl digest_step32 h (bs[i := v]) = foldl digest_step32 h bs"
  have a: "bs = take i bs @ bs ! i # drop (Suc i) bs"
    using assms(1) by (rule id_take_nth_drop)
  have b: "bs[i := v] = take i bs @ v # drop (Suc i) bs"
    using assms(1) by (rule upd_conv_take_nth_drop)
  from eq have "foldl digest_step32 h (take i bs @ v # drop (Suc i) bs)
      = foldl digest_step32 h (take i bs @ bs ! i # drop (Suc i) bs)"
    by (simp only: a[symmetric] b[symmetric])
  then have "digest_step32 (foldl digest_step32 h (take i bs)) v
      = digest_step32 (foldl digest_step32 h (take i bs)) (bs ! i)"
    by (simp add: foldl32_inj)
  from step32_inj_v[OF this] assms(2) show False by simp
qed

lemma flip_differs: "j < 8 \<Longrightarrow> (v :: byte) XOR push_bit j 1 \<noteq> v"
proof
  assume j: "j < 8" and eq: "v XOR push_bit j 1 = v"
  have "bit (v XOR push_bit j 1) j \<noteq> bit v j"
    using j by (simp add: bit_simps)
  with eq show False by simp
qed

lemma digest_mod32_detects_flip:
  assumes "i < length bs" and "j < 8"
  shows "fst (digest_mod32 (flip_bit_at bs i j)) \<noteq> fst (digest_mod32 bs) \<and>
         snd (digest_mod32 (flip_bit_at bs i j)) \<noteq> snd (digest_mod32 bs)"
  using foldl32_detects_change[OF assms(1) flip_differs[OF assms(2)]]
  by (simp add: digest_mod32_def flip_bit_at_def)

subsection \<open>The round trip over a cleared header buffer\<close>

text \<open>
  When the path region of \<open>apBody\<close> holds zero bytes after the place of the new path,
  the header written by \<open>setAssociatedPath\<close> is read back by \<open>getAssociatedPath\<close> as
  the same path, with the same flags in the file. The path is the encoding of a string
  without \<open>U+0000\<close> and without a leading \<open>U+FEFF\<close>, and the flags are those of a file
  that persists.
\<close>

lemma findIndex_first:
  "\<forall>x\<in>set xs. \<not> P x \<Longrightarrow> P y \<Longrightarrow> findIndex P (xs @ y # ys) = int (length xs)"
  by (induction xs) (simp_all add: Let_def)

lemma roundtrip_zero_tail:
  assumes live: "sah_file s h = Some c" and len: "length (apBody s) = HEADER_CORPUS_SIZE"
    and ne: "path \<noteq> []" and short: "length path < HEADER_MAX_PATH_SIZE"
    and nz: "0 \<notin> set path"
    and wf: "utf8_wf path" and bom: "take 3 path \<noteq> [0xEF, 0xBB, 0xBF]"
    and tail: "take (512 - length path) (drop (length path) (apBody s))
                 = replicate (512 - length path) 0"
    and keep: "flags AND SQLITE_OPEN_DELETEONCLOSE = 0"
    and pers: "flags AND PERSISTENT_FILE_TYPES \<noteq> 0"
  shows "fst (setAssociatedPath s h path flags) = Inr () \<and>
         fst (getAssociatedPath (snd (setAssociatedPath s h path flags)) h) = Inr path \<and>
         map_option (\<lambda>c'. getUint32 c' HEADER_OFFSET_FLAGS)
           (sah_file (snd (setAssociatedPath s h path flags)) h) = Some flags"
proof -
  from sah_file_SomeD[OF live] obtain nm where
    op: "map_of (opfs_open s) h = Some nm" and fil: "map_of (opfs_dir s) nm = Some c" by blast
  define body where "body = setUint32 (path @ drop (length path) (apBody s)) 512 flags"
  define c' where "c' = body @ digest_bytes (computeDigest body) @ drop 524 c"
  define s1 where "s1 = s\<lparr>apBody := body, opfs_dir := AList.update nm c' (opfs_dir s),
              mapFilenameToSAH := AList.update path h (mapFilenameToSAH s),
              availableSAH := removeAll h (availableSAH s)\<rparr>"
  have set: "setAssociatedPath s h path flags = (Inr (), s1)"
    using setAssociatedPath_ok[OF op fil len short, of flags] ne
    by (simp add: Let_def body_def c'_def s1_def)
  have lb: "length body = 516" using len short by (simp add: body_def length_setUint32)
  have cd: "computeDigest body = (0, 0)" using lb by (simp add: computeDigest_header)
  have live1: "sah_file s1 h = Some c'"
    using op by (simp add: sah_file_def s1_def map_of_update_same)
  have t516: "take 516 c' = body" using lb by (simp add: c'_def)
  have fl: "getUint32 body 512 = flags"
    using len short by (simp add: body_def getUint32_setUint32)
  have "getUint32 (take 516 c') 512 = getUint32 body 512" by (simp only: t516)
  then have flc: "getUint32 c' 512 = flags" by (simp add: getUint32_take fl)
  have shape: "body = path @ 0 # (replicate (511 - length path) 0 @ be_bytes flags)"
  proof -
    have "take 512 (path @ drop (length path) (apBody s))
            = path @ take (512 - length path) (drop (length path) (apBody s))"
      using short by simp
    also have "\<dots> = path @ replicate (512 - length path) 0" by (simp only: tail)
    also have "512 - length path = Suc (511 - length path)" using short by simp
    finally have t: "take 512 (path @ drop (length path) (apBody s))
                    = path @ 0 # replicate (511 - length path) 0"
      by simp
    have d: "drop (512 + 4) (path @ drop (length path) (apBody s)) = []"
      using len short by simp
    show ?thesis unfolding body_def setUint32_def by (simp only: t d) simp
  qed
  have fnz: "first_nonzero body"
    using ne nz by (cases path) (auto simp: shape first_nonzero_def)
  have fi: "findIndex (\<lambda>v. v = 0) body = int (length path)"
    unfolding shape using nz by (intro findIndex_first) auto
  have sub: "subarray0 body (int (length path)) = path"
    by (simp add: subarray0_def shape)
  have rd: "sah_read s1 h (apBody s1) 0 = Some (body, 516)"
    using live1 lb t516 by (simp add: sah_read_def Let_def s1_def)
  have "length (take 8 (drop 516 c')) = 8" using lb by (simp add: c'_def length_digest_bytes)
  moreover have "take 8 (drop 516 c') = replicate 8 0"
    using lb by (simp add: c'_def cd digest_bytes_0)
  moreover have "sah_file (s1\<lparr>apBody := body\<rparr>) h = Some c'"
    using live1 sah_file_frame[of "s1\<lparr>apBody := body\<rparr>" s1 h] by simp
  ultimately have rd2:
    "sah_read (s1\<lparr>apBody := body\<rparr>) h (replicate 8 0) 516 = Some (replicate 8 0, 8)"
    by (simp add: sah_read_def Let_def)
  have pos: "int (length path) \<noteq> 0" using ne by simp
  have get: "fst (getAssociatedPath s1 h) = Inr path"
    using fnz keep pers ne
    by (simp add: getAssociatedPath_def rd Let_def fl rd2 digest_words_0 cd fi pos sub
        textDecoder_wf[OF wf bom])
  show ?thesis
    using set get live1 flc by simp
qed

subsection \<open>importDb\<close>

lemma header_matches_iff: "header_matches hs bytes \<longleftrightarrow> take (length hs) bytes = hs"
  by (induction hs bytes rule: header_matches.induct) auto

lemma length_sqlite_header: "length sqlite_header = 15"
  by (simp add: sqlite_header_def)

text \<open>
  Claim C8. \<open>importDb(name, bytes)\<close> throws whenever the byte array is shorter than 512
  bytes, is not a multiple of 512 bytes long, or does not begin with the 15 characters
  "SQLite format 3"; the state it leaves is the state it found: no slot is taken, no
  mapping is added, no file is written.
\<close>

theorem importDb_rejects:
  assumes "length bytes < 512 \<or> length bytes mod 512 \<noteq> 0 \<or> take 15 bytes \<noteq> sqlite_header"
  shows "importDb s name bytes =
           (Inl (if length bytes < 512 \<or> length bytes mod 512 \<noteq> 0 then InvalidSize
                 else InvalidHeader), s)"
  using assms by (auto simp: importDb_def Let_def header_matches_iff length_sqlite_header)

theorem importDb_rejects_witness:
  "importDb init_state [0x2F, 0x61] [] = (Inl InvalidSize, init_state) \<and>
   importDb init_state [0x2F, 0x61] (replicate 511 0) = (Inl InvalidSize, init_state) \<and>
   importDb init_state [0x2F, 0x61] (replicate 513 0) = (Inl InvalidSize, init_state) \<and>
   importDb init_state [0x2F, 0x61] (replicate 512 0) = (Inl InvalidHeader, init_state)"
proof -
  have "take 15 (replicate 512 (0::byte)) ! 0 \<noteq> sqlite_header ! 0"
    by (simp add: sqlite_header_def)
  then have ne: "take 15 (replicate 512 (0::byte)) \<noteq> sqlite_header" by metis
  show ?thesis
    using importDb_rejects[of "[]" init_state "[0x2F, 0x61]"]
      importDb_rejects[of "replicate 511 0" init_state "[0x2F, 0x61]"]
      importDb_rejects[of "replicate 513 0" init_state "[0x2F, 0x61]"]
      importDb_rejects[of "replicate 512 0" init_state "[0x2F, 0x61]"] ne
    by simp
qed

subsection \<open>exportFile\<close>

text \<open>
  Claim C10. For a name that is mapped to a slot whose handle is open, \<open>exportFile\<close>
  returns the bytes of the file from offset 4096 on: \<open>max(size - 4096, 0)\<close> bytes, none
  when the file is not longer than the header sector.
\<close>

theorem exportFile_payload:
  assumes "map_of (mapFilenameToSAH s) name = Some h" and "sah_file s h = Some c"
  shows "exportFile s name = Inr (drop HEADER_OFFSET_DATA c) \<and>
         int (length (drop HEADER_OFFSET_DATA c)) = max (int (length c) - int HEADER_OFFSET_DATA) 0"
  using assms by (auto simp: exportFile_def sah_getSize_def sah_read_def Let_def)

theorem exportFile_payload_witness:
  "exportFile ex_ab path_ab = Inr [] \<and> exportFile ex_written path_ab = Inr [7, 8, 9]"
proof -
  have m1: "map_of (mapFilenameToSAH ex_ab) path_ab = Some 0"
    and m2: "map_of (mapFilenameToSAH ex_written) path_ab = Some 0"
    by (simp_all add: ex_defs)
  have l1: "sah_file ex_ab 0 = Some (the (sah_file ex_ab 0))"
    and l2: "sah_file ex_written 0 = Some (the (sah_file ex_written 0))"
    by (simp_all add: ex_defs sah_file_def)
  have d1: "drop HEADER_OFFSET_DATA (the (sah_file ex_ab 0)) = []"
    and d2: "drop HEADER_OFFSET_DATA (the (sah_file ex_written 0)) = [7, 8, 9]"
    by (simp_all add: ex_defs sah_file_def)
  show ?thesis
    using exportFile_payload[OF m1 l1] exportFile_payload[OF m2 l2] by (simp add: d1 d2)
qed

subsection \<open>xRead\<close>

text \<open>
  Claim C9. A read of \<open>n\<close> bytes at \<open>offset\<close> on an open file whose handle is open: when
  the file has fewer than \<open>n\<close> bytes from \<open>4096 + offset\<close> on, the destination holds those
  bytes followed by zeros and the result is \<open>SQLITE_IOERR_SHORT_READ\<close>, not
  \<open>SQLITE_IOERR\<close>; otherwise the destination holds the \<open>n\<close> bytes and the result is
  \<open>SQLITE_OK\<close>.
\<close>

theorem xRead_short_or_ok:
  assumes "map_of (mapIdToFile s) pFile = Some f" and "sah_file s (file_sah f) = Some c"
    and "length dest = n"
  shows "xRead s pFile dest n off =
           (if length c - (HEADER_OFFSET_DATA + off) < n
            then (Inr (SQLITE_IOERR_SHORT_READ,
                       drop (HEADER_OFFSET_DATA + off) c
                         @ replicate (n - (length c - (HEADER_OFFSET_DATA + off))) 0),
                  storeErr s None)
            else (Inr (SQLITE_OK, take n (drop (HEADER_OFFSET_DATA + off) c)), storeErr s None))"
  using assms
  by (auto simp: xRead_def Let_def storeErr_def sah_read_def sah_file_def fill_def min_def
           split: option.splits)

theorem xRead_short_or_ok_witness:
  "xRead ex_ab 1 [1, 2, 3, 4] 4 0
     = (Inr (SQLITE_IOERR_SHORT_READ, [0, 0, 0, 0]), storeErr ex_ab None) \<and>
   xRead ex_written 1 [1, 2, 3, 4] 4 0
     = (Inr (SQLITE_IOERR_SHORT_READ, [7, 8, 9, 0]), storeErr ex_written None) \<and>
   xRead ex_written 1 [1, 2] 2 1 = (Inr (SQLITE_OK, [8, 9]), storeErr ex_written None)"
proof -
  define f where "f = \<lparr>file_path = path_ab, file_flags = flags_db, file_sah = 0,
                         file_lockType = 0\<rparr>"
  have m1: "map_of (mapIdToFile ex_ab) 1 = Some f"
    and m2: "map_of (mapIdToFile ex_written) 1 = Some f"
    by (simp_all add: ex_defs f_def)
  have l1: "sah_file ex_ab (file_sah f) = Some (the (sah_file ex_ab 0))"
    and l2: "sah_file ex_written (file_sah f) = Some (the (sah_file ex_written 0))"
    by (simp_all add: ex_defs sah_file_def f_def)
  have n4: "length [1, 2, 3, 4 :: byte] = 4" and n2: "length [1, 2 :: byte] = 2"
    by simp_all
  have c1: "length (the (sah_file ex_ab 0)) = 4096"
    and c2: "length (the (sah_file ex_written 0)) = 4099"
    and d1: "drop 4096 (the (sah_file ex_written 0)) = [7, 8, 9]"
    and d0: "drop 4096 (the (sah_file ex_ab 0)) = []"
    and d2: "drop 4097 (the (sah_file ex_written 0)) = [8, 9]"
    by (simp_all add: ex_defs sah_file_def)
  have r4: "replicate 4 (0::byte) = [0, 0, 0, 0]" by (simp add: numeral_eq_Suc)
  show ?thesis
    using xRead_short_or_ok[OF m1 l1 n4, of 0] xRead_short_or_ok[OF m2 l2 n4, of 0]
      xRead_short_or_ok[OF m2 l2 n2, of 1]
    by (simp add: c1 c2 d0 d1 d2 r4)
qed

subsection \<open>deletePath\<close>




subsection \<open>xOpen with the create flag\<close>







subsection \<open>reduceCapacity\<close>

text \<open>
  Claim C7. In a state with \<open>pool_wf\<close>, which every sequence of calls on a new pool
  leaves, \<open>reduceCapacity(n)\<close> returns the smaller of \<open>n\<close> and the number of available
  slots; it removes that many slots, the first ones of the available set, from the pool:
  their handles are closed and leave \<open>mapSAHToName\<close>, so the capacity drops by that
  number, and their files, that many, are removed from the directory. The map of the
  used slots is as before, and every used slot still has its handle open on its
  unchanged file.
\<close>

theorem reduceCapacity_removes_available:
  assumes "pool_wf s"
  shows "fst (reduceCapacity s n) = Inr (min n (length (availableSAH s))) \<and>
         mapFilenameToSAH (snd (reduceCapacity s n)) = mapFilenameToSAH s \<and>
         (\<forall>h\<in>set (map snd (mapFilenameToSAH s)).
            sah_file (snd (reduceCapacity s n)) h = sah_file s h) \<and>
         availableSAH (snd (reduceCapacity s n))
           = drop (min n (length (availableSAH s))) (availableSAH s) \<and>
         mapSAHToName (snd (reduceCapacity s n))
           = filter (\<lambda>(h, nm). h \<notin> set (take (min n (length (availableSAH s))) (availableSAH s)))
               (mapSAHToName s) \<and>
         opfs_open (snd (reduceCapacity s n))
           = filter (\<lambda>(h, nm). h \<notin> set (take (min n (length (availableSAH s))) (availableSAH s)))
               (opfs_open s) \<and>
         opfs_dir (snd (reduceCapacity s n))
           = filter (\<lambda>(nm, c). nm \<notin> set (slot_files s
                                         (take (min n (length (availableSAH s))) (availableSAH s))))
               (opfs_dir s) \<and>
         length (opfs_dir (snd (reduceCapacity s n)))
           = length (opfs_dir s) - min n (length (availableSAH s)) \<and>
         getCapacity (snd (reduceCapacity s n))
           = getCapacity s - min n (length (availableSAH s)) \<and>
         pool_wf (snd (reduceCapacity s n))"
proof -
  from assms have gen: "pool_gen False s" by (simp add: pool_wf_def)
  from reduce_loop_pool[OF gen refl, of 0 n] obtain s' where
    res: "reduceCapacity s n = (Inr (min n (length (availableSAH s))), s')"
    and inv': "pool_gen False s'"
    and mf': "mapFilenameToSAH s' = mapFilenameToSAH s"
    and av': "availableSAH s' = drop (min n (length (availableSAH s))) (availableSAH s)"
    and m': "mapSAHToName s'
             = filter (\<lambda>(h, nm). h \<notin> set (take (min n (length (availableSAH s))) (availableSAH s)))
                 (mapSAHToName s)"
    and frame': "\<forall>h\<in>set (map snd (mapFilenameToSAH s)). sah_file s' h = sah_file s h"
    and dir': "opfs_dir s'
             = filter (\<lambda>(nm, c). nm \<notin> set (slot_files s
                                           (take (min n (length (availableSAH s))) (availableSAH s))))
                 (opfs_dir s)"
    and cnt': "length (opfs_dir s') + min n (length (availableSAH s)) = length (opfs_dir s)"
    and cap': "getCapacity s' + min n (length (availableSAH s)) = getCapacity s"
    by (auto simp: reduceCapacity_def)
  from cap' have cap: "getCapacity s' = getCapacity s - min n (length (availableSAH s))"
    by arith
  from gen inv' have "opfs_open s = mapSAHToName s" "opfs_open s' = mapSAHToName s'"
    by (simp_all add: pool_gen_def)
  with m' have op': "opfs_open s'
             = filter (\<lambda>(h, nm). h \<notin> set (take (min n (length (availableSAH s))) (availableSAH s)))
                 (opfs_open s)"
    by simp
  from cnt' have len': "length (opfs_dir s') = length (opfs_dir s) - min n (length (availableSAH s))"
    by arith
  from inv' have wf': "pool_wf s'" by (simp add: pool_wf_def)
  show ?thesis
    unfolding res fst_conv snd_conv
    by (intro conjI refl mf' frame' av' m' op' dir' len' cap wf')
qed

theorem reduceCapacity_removes_available_witness:
  "fst (reduceCapacity ex_ab 5) = Inr 1 \<and>
   mapFilenameToSAH (snd (reduceCapacity ex_ab 5)) = [(path_ab, 0)] \<and>
   availableSAH (snd (reduceCapacity ex_ab 5)) = [] \<and>
   mapSAHToName (snd (reduceCapacity ex_ab 5)) = [(0, ''a'')] \<and>
   opfs_open (snd (reduceCapacity ex_ab 5)) = [(0, ''a'')] \<and>
   map fst (opfs_dir (snd (reduceCapacity ex_ab 5))) = [''a''] \<and>
   getCapacity (snd (reduceCapacity ex_ab 5)) = 1 \<and>
   fst (reduceCapacity ex_fresh2 1) = Inr 1 \<and>
   availableSAH (snd (reduceCapacity ex_fresh2 1)) = [1] \<and>
   map fst (opfs_dir (snd (reduceCapacity ex_fresh2 1))) = [''b''] \<and>
   getFileCount ex_orphan + length (availableSAH ex_orphan) < getCapacity ex_orphan \<and>
   fst (reduceCapacity ex_orphan 1) = Inr 1 \<and>
   mapFilenameToSAH (snd (reduceCapacity ex_orphan 1)) = [(path_ab, 4)] \<and>
   availableSAH (snd (reduceCapacity ex_orphan 1)) = [] \<and>
   mapSAHToName (snd (reduceCapacity ex_orphan 1)) = [(3, ''a''), (4, ''b'')] \<and>
   map fst (opfs_dir (snd (reduceCapacity ex_orphan 1))) = [''a'', ''b''] \<and>
   getCapacity (snd (reduceCapacity ex_orphan 1)) = 2"
proof -
  have e: "availableSAH ex_ab = [1]" "mapFilenameToSAH ex_ab = [(path_ab, 0)]"
    "mapSAHToName ex_ab = [(0, ''a''), (1, ''b'')]" "getCapacity ex_ab = 2"
    "opfs_open ex_ab = [(0, ''a''), (1, ''b'')]" "map fst (opfs_dir ex_ab) = [''a'', ''b'']"
    "availableSAH ex_fresh2 = [0, 1]" "mapSAHToName ex_fresh2 = [(0, ''a''), (1, ''b'')]"
    "map fst (opfs_dir ex_fresh2) = [''a'', ''b'']"
    "availableSAH ex_orphan = [5]" "mapFilenameToSAH ex_orphan = [(path_ab, 4)]"
    "mapSAHToName ex_orphan = [(3, ''a''), (4, ''b''), (5, ''c'')]" "getCapacity ex_orphan = 3"
    "getFileCount ex_orphan = 1"
    by (simp_all add: ex_defs getCapacity_def getFileCount_def)
  have f: "map fst (filter (\<lambda>(nm, c). nm \<notin> set (slot_files ex_ab [Suc 0])) (opfs_dir ex_ab))
             = [''a'']"
    "map fst (filter (\<lambda>(nm, c). nm \<notin> set (slot_files ex_fresh2 [0])) (opfs_dir ex_fresh2))
       = [''b'']"
    "map fst (filter (\<lambda>(nm, c). nm \<notin> set (slot_files ex_orphan [5])) (opfs_dir ex_orphan))
       = [''a'', ''b'']"
    by (simp_all add: ex_defs slot_files_def)
  show ?thesis
    using reduceCapacity_removes_available[OF pool_wf_ex(2), of 5]
      reduceCapacity_removes_available[OF pool_wf_ex(1), of 1]
      reduceCapacity_removes_available[OF pool_wf_ex(3), of 1]
    by (simp add: e f)
qed

subsection \<open>The header buffer is not cleared\<close>

text \<open>
  \<open>setAssociatedPath\<close> writes the path over the start of \<open>apBody\<close> and leaves what follows
  it. After "/ab" got a slot, the header written for "/a" reads "/ab".

  Claim C3 fails on this: \<open>setAssociatedPath(sah, "/a", flags)\<close> followed by
  \<open>getAssociatedPath(sah)\<close> returns "/ab". Over a buffer whose path region is zero after
  the new path the same two calls return the path (\<open>roundtrip_zero_tail\<close>).
\<close>

theorem stale_path_roundtrip:
  "run init_state [AddCapacity [''a'', ''b''], XOpen path_ab 1 flags_db] = ex_ab \<and>
   fst (setAssociatedPath ex_ab 1 path_a flags_db) = Inr () \<and>
   fst (getAssociatedPath (snd (setAssociatedPath ex_ab 1 path_a flags_db)) 1) = Inr path_ab"
proof -
  have "run init_state [AddCapacity [''a'', ''b''], XOpen path_ab 1 flags_db] = ex_ab"
    by (simp only: run_def foldl.simps step.simps ex_fresh2_reached ex_ab_reached snd_conv)
  moreover have "fst (setAssociatedPath ex_ab 1 path_a flags_db) = Inr ()"
    by (simp add: ex_defs sah_defs header_defs zeros)
  moreover have
    "fst (getAssociatedPath (snd (setAssociatedPath ex_ab 1 path_a flags_db)) 1) = Inr path_ab"
    by (simp add: ex_defs decode_defs sah_defs header_defs zeros)
  ultimately show ?thesis by simp
qed

theorem stale_path_roundtrip_witness:
  "fst (getAssociatedPath (snd (setAssociatedPath ex_ab 1 path_a flags_db)) 1) \<noteq> Inr path_a"
  using stale_path_roundtrip by (simp add: path_a_def path_ab_def)

text \<open>
  Claim C1 fails on this: after "/ab" and "/a" are opened in a pool of two slots, both
  headers read "/ab", and \<open>reset(false)\<close> maps that one path to the second slot only.
  One slot is used, none is available, and the capacity is 2. Without \<open>reset(false)\<close>
  the three numbers agree (\<open>count_without_reset_false\<close>).
\<close>

theorem reset_breaks_count:
  "getFileCount (run init_state [AddCapacity [''a'', ''b''], XOpen path_ab 1 flags_db,
                                 XOpen path_a 2 flags_db, Reset False]) = 1 \<and>
   availableSAH (run init_state [AddCapacity [''a'', ''b''], XOpen path_ab 1 flags_db,
                                 XOpen path_a 2 flags_db, Reset False]) = [] \<and>
   getCapacity (run init_state [AddCapacity [''a'', ''b''], XOpen path_ab 1 flags_db,
                                XOpen path_a 2 flags_db, Reset False]) = 2"
proof -
  have "run init_state [AddCapacity [''a'', ''b''], XOpen path_ab 1 flags_db,
                        XOpen path_a 2 flags_db, Reset False] = snd (reset ex_ab_a False)"
    by (simp only: run_def foldl.simps step.simps ex_fresh2_reached ex_ab_reached
        ex_ab_a_reached snd_conv)
  then show ?thesis
    by (simp add: ex_defs reset_defs decode_defs sah_defs header_defs zeros)
qed

theorem reset_breaks_count_witness:
  "getFileCount (run init_state [AddCapacity [''a'', ''b''], XOpen path_ab 1 flags_db,
                                 XOpen path_a 2 flags_db, Reset False])
     + length (availableSAH (run init_state [AddCapacity [''a'', ''b''], XOpen path_ab 1 flags_db,
                                             XOpen path_a 2 flags_db, Reset False]))
   \<noteq> getCapacity (run init_state [AddCapacity [''a'', ''b''], XOpen path_ab 1 flags_db,
                                  XOpen path_a 2 flags_db, Reset False])"
  using reset_breaks_count by simp

text \<open>
  Claim C5 fails on the code. After "/ab" is opened in a pool of two slots,
  \<open>addCapacity(1)\<close> gives the new slot a header with the path bytes of "/ab" and the
  flags 0. In \<open>reset(false)\<close> that header sends \<open>getAssociatedPath\<close> to its \<open>warn\<close>,
  which throws; the \<open>catch\<close> of \<open>acquireAccessHandles\<close> releases every handle, and the
  promise rejects: the capacity is 0, not 3, and "/ab" is no longer mapped. And where
  \<open>reset(false)\<close> succeeds, after "/ab" and "/a" are opened in a pool of two slots, "/a"
  is no longer mapped, "/ab" is mapped to the slot that held "/a" (the file "b"), and
  the slot that held "/ab" is neither used nor available.
\<close>

theorem reset_loses_slots:
  "run init_state [AddCapacity [''a'', ''b''], XOpen path_ab 1 flags_db, AddCapacity [''c'']]
     = ex_ab_c \<and>
   getCapacity ex_ab_c = 3 \<and>
   map_of (mapFilenameToSAH ex_ab_c) path_ab = Some 0 \<and>
   fst (reset ex_ab_c False) = Inl ReferenceError \<and>
   getCapacity (snd (reset ex_ab_c False)) = 0 \<and>
   mapFilenameToSAH (snd (reset ex_ab_c False)) = [] \<and>
   availableSAH (snd (reset ex_ab_c False)) = [] \<and>
   opfs_open (snd (reset ex_ab_c False)) = [] \<and>
   lastError (snd (reset ex_ab_c False)) = Some ReferenceError \<and>
   map_of (mapFilenameToSAH ex_ab_a) path_a = Some 1 \<and>
   map_of (mapSAHToName ex_ab_a) 1 = Some ''b'' \<and>
   fst (reset ex_ab_a False) = Inr () \<and>
   mapSAHToName (snd (reset ex_ab_a False)) = [(2, ''a''), (3, ''b'')] \<and>
   mapFilenameToSAH (snd (reset ex_ab_a False)) = [(path_ab, 3)] \<and>
   availableSAH (snd (reset ex_ab_a False)) = []"
proof -
  have "run init_state [AddCapacity [''a'', ''b''], XOpen path_ab 1 flags_db,
                        AddCapacity [''c'']] = ex_ab_c"
    by (simp only: run_def foldl.simps step.simps ex_fresh2_reached ex_ab_reached
        ex_ab_c_reached snd_conv)
  moreover have "getCapacity ex_ab_c = 3 \<and> map_of (mapFilenameToSAH ex_ab_c) path_ab = Some 0"
    by (simp add: ex_defs getCapacity_def)
  moreover have "fst (reset ex_ab_c False) = Inl ReferenceError \<and>
      getCapacity (snd (reset ex_ab_c False)) = 0 \<and>
      mapFilenameToSAH (snd (reset ex_ab_c False)) = [] \<and>
      availableSAH (snd (reset ex_ab_c False)) = [] \<and>
      opfs_open (snd (reset ex_ab_c False)) = [] \<and>
      lastError (snd (reset ex_ab_c False)) = Some ReferenceError"
    by (simp add: ex_defs reset_defs decode_defs sah_defs header_defs zeros be_word_zeros0)
  moreover have "map_of (mapFilenameToSAH ex_ab_a) path_a = Some 1 \<and>
      map_of (mapSAHToName ex_ab_a) 1 = Some ''b'' \<and>
      fst (reset ex_ab_a False) = Inr () \<and>
      mapSAHToName (snd (reset ex_ab_a False)) = [(2, ''a''), (3, ''b'')] \<and>
      mapFilenameToSAH (snd (reset ex_ab_a False)) = [(path_ab, 3)] \<and>
      availableSAH (snd (reset ex_ab_a False)) = []"
    by (simp add: ex_defs reset_defs decode_defs sah_defs header_defs zeros)
  ultimately show ?thesis by simp
qed

theorem reset_loses_slots_witness:
  "getCapacity (snd (reset ex_ab_c False)) \<noteq> getCapacity ex_ab_c \<and>
   map_of (mapFilenameToSAH (snd (reset ex_ab_c False))) path_ab = None \<and>
   map_of (mapFilenameToSAH (snd (reset ex_ab_a False))) path_a = None"
  using reset_loses_slots by (simp add: path_a_def path_ab_def)

subsection \<open>The digest does not detect a flipped bit\<close>

text \<open>
  Claim C4 fails on the code: the two accumulators are JavaScript numbers, not 32-bit
  integers, and over the 516 bytes of a header they overflow to \<open>Infinity\<close>, so that the
  digest of every header is \<open>(0, 0)\<close> (\<open>computeDigest_header\<close>). In the slot of "/ab",
  flipping bit 1 of the second path byte makes \<open>getAssociatedPath\<close> return "/cb", and
  flipping bit 0 of the last flags byte leaves it returning "/ab"; neither is reported.
  With the accumulators reduced modulo \<open>2^32\<close> either flip would change both words of
  the digest (\<open>digest_mod32_detects_flip\<close>).
\<close>

theorem bit_flip_undetected:
  "fst (getAssociatedPath (corrupt ex_ab ''a'' 1 1) 0) = Inr [0x2F, 0x63, 0x62] \<and>
   fst (getAssociatedPath (corrupt ex_ab ''a'' 515 0) 0) = Inr path_ab"
  by (simp add: corrupt_def flip_bit_at_def ex_defs decode_defs sah_defs header_defs zeros
      list_update_append nth_append be_word_2)

theorem bit_flip_undetected_witness:
  "fst (getAssociatedPath (corrupt ex_ab ''a'' 1 1) 0) \<noteq> Inr [] \<and>
   fst (getAssociatedPath (corrupt ex_ab ''a'' 515 0) 0) \<noteq> Inr []"
  using bit_flip_undetected by (simp add: path_ab_def)

end
